theory Spec2Isabelle
  imports Main "HOL-Library.Word" "HOL-Library.Signed_Division"
begin

section \<open>The batch sweep of cudamapper's \<open>main\<close>\<close>

text \<open>
  The model follows \<^verbatim>\<open>cudamapper/src/main.cpp\<close>.  The variables of type
  \<^verbatim>\<open>size_t\<close> and \<^verbatim>\<open>std::uint64_t\<close> are 64-bit words, \<^verbatim>\<open>uint32_t\<close> and
  \<^verbatim>\<open>int\<close> are 32-bit words (\<open>sint\<close> reads an \<^verbatim>\<open>int\<close>), so every \<open>+\<close>, \<open>-\<close>
  and \<open>*\<close> below wraps as the C++ does.  The index, the matcher and the overlapper are
  declared in headers outside the sources at hand; they enter as a record of functions of
  their arguments (the overlapper object is made once in every round of the outer loop and
  used again in the inner loop).  A collaborator that throws ends \<^verbatim>\<open>main\<close> (there is
  no handler) and is outside this model.  The lines of \<^verbatim>\<open>CGA_LOG_INFO\<close> and the
  messages that \<^verbatim>\<open>getopt_long\<close> itself prints are not modelled.  The counters of type
  \<^verbatim>\<open>std::chrono::milliseconds\<close> are integers without a bound.
\<close>

subsection \<open>Data\<close>

type_synonym read_range = "64 word \<times> 64 word"

text \<open>The variables \<^verbatim>\<open>k\<close>, \<^verbatim>\<open>w\<close>, \<^verbatim>\<open>index_size\<close> and \<^verbatim>\<open>input_filepath\<close>.\<close>

record config =
  cfg_k :: "32 word"
  cfg_w :: "32 word"
  index_size :: "64 word"
  input_filepath :: string

text \<open>
  \<^verbatim>\<open>Index::create_index\<close>, \<^verbatim>\<open>Index::number_of_reads\<close>, the constructor of
  \<^verbatim>\<open>Matcher\<close> followed by \<^verbatim>\<open>anchors()\<close>, \<^verbatim>\<open>OverlapperTriggered::get_overlaps\<close>,
  the text that \<^verbatim>\<open>print_paf\<close> writes to the standard output, and
  \<^verbatim>\<open>Index::maximum_kmer_size()\<close>.  The header that gives the result types of
  \<^verbatim>\<open>number_of_reads\<close> and \<^verbatim>\<open>maximum_kmer_size\<close> is not at hand: both are taken
  as unsigned 64-bit values, as the comparisons with \<^verbatim>\<open>index_size\<close> and \<^verbatim>\<open>k\<close>
  convert them.
\<close>

record ('idx, 'anc, 'ovl) collaborators =
  create_index :: "string \<Rightarrow> 32 word \<Rightarrow> 32 word \<Rightarrow> read_range list \<Rightarrow> 'idx"
  number_of_reads :: "'idx \<Rightarrow> 64 word"
  matcher_anchors :: "'idx \<Rightarrow> 32 word \<Rightarrow> 'anc"
  get_overlaps :: "'anc \<Rightarrow> 'idx \<Rightarrow> 'ovl"
  print_paf :: "'ovl \<Rightarrow> string"
  maximum_kmer_size :: "64 word"

text \<open>
  \<^verbatim>\<open>std::chrono::high_resolution_clock::now()\<close>: \<open>now c n\<close> is the reading, in clock
  ticks, that the \<open>n\<close>-th call returns, and \<open>ticks_per_ms c\<close> the number of ticks in a
  millisecond.  \<^verbatim>\<open>duration_cast\<close> to milliseconds divides and truncates towards zero.
\<close>

record clock =
  now :: "nat \<Rightarrow> int"
  ticks_per_ms :: int

definition elapsed_ms :: "clock \<Rightarrow> nat \<Rightarrow> nat \<Rightarrow> int" where
  "elapsed_ms clk start n = (now clk n - now clk start) sdiv ticks_per_ms clk"

datatype stage = Index | Matcher | Overlapper | PafOutput

text \<open>
  The lines of the error stream: a stage with its milliseconds
  (\<^verbatim>\<open>"Index execution time: "\<close> and so on), the blank lines before the summary, and the
  message for a k-mer size that is too large, with the requested and the maximal size.
\<close>

datatype err_line = StageTime stage int | Blank | KmerNotAllowed "32 word" "64 word"

datatype kind = OUTER_SELF | INNER_CROSS

text \<open>
  One pass through the four measured stages, as the collaborators see it: the ranges given
  to \<^verbatim>\<open>create_index\<close>, the \<^verbatim>\<open>match_point\<close> given to the \<^verbatim>\<open>Matcher\<close>, the
  \<^verbatim>\<open>number_of_reads\<close> of the index built, together with the values that
  \<^verbatim>\<open>query_start\<close>, \<^verbatim>\<open>query_end\<close> and (in the inner loop) \<^verbatim>\<open>target_start\<close>,
  \<^verbatim>\<open>target_end\<close> have at that moment, and the four counters after the pass.
\<close>

record step =
  step_kind :: kind
  step_query :: read_range
  step_target :: "read_range option"
  step_ranges :: "read_range list"
  step_match_point :: "32 word"
  step_reads :: "64 word"
  step_timers :: "int \<times> int \<times> int \<times> int"

text \<open>
  The variables of \<^verbatim>\<open>main\<close> that live across the loops, the number of clock readings
  taken so far, both output streams, and the passes made so far.
\<close>

record sweep_state =
  query_start :: "64 word"
  query_end :: "64 word"
  index_time :: int
  matcher_time :: int
  overlapper_time :: int
  paf_time :: int
  clock_reads :: nat
  out_stream :: "string list"
  err_stream :: "err_line list"
  trace :: "step list"

subsection \<open>The four measured stages (lines 86 to 130 and 140 to 183)\<close>

text \<open>
  Each stage reads the clock three times: \<^verbatim>\<open>start_time\<close>, the reading for the line
  printed on the error stream, and the reading added to the counter.
\<close>

definition measured_stages ::
  "('idx, 'anc, 'ovl) collaborators \<Rightarrow> clock \<Rightarrow> kind \<Rightarrow> read_range option \<Rightarrow>
   read_range list \<Rightarrow> 'idx \<Rightarrow> 32 word \<Rightarrow> sweep_state \<Rightarrow> sweep_state" where
  "measured_stages C clk knd tgt rs index match_point st =
    (let r = clock_reads st;
         anchors = matcher_anchors C index match_point;
         overlaps = get_overlaps C anchors index;
         it = index_time st + elapsed_ms clk r (r + 2);
         mt = matcher_time st + elapsed_ms clk (r + 3) (r + 5);
         ot = overlapper_time st + elapsed_ms clk (r + 6) (r + 8);
         pt = paf_time st + elapsed_ms clk (r + 9) (r + 11)
     in st\<lparr>index_time := it, matcher_time := mt, overlapper_time := ot, paf_time := pt,
           clock_reads := r + 12,
           out_stream := out_stream st @ [print_paf C overlaps],
           err_stream := err_stream st @
             [StageTime Index (elapsed_ms clk r (r + 1)),
              StageTime Matcher (elapsed_ms clk (r + 3) (r + 4)),
              StageTime Overlapper (elapsed_ms clk (r + 6) (r + 7)),
              StageTime PafOutput (elapsed_ms clk (r + 9) (r + 10))],
           trace := trace st @
             [\<lparr>step_kind = knd, step_query = (query_start st, query_end st),
               step_target = tgt, step_ranges = rs, step_match_point = match_point,
               step_reads = number_of_reads C index, step_timers = (it, mt, ot, pt)\<rparr>]\<rparr>)"

subsection \<open>The loops (lines 85 to 195)\<close>

text \<open>
  Lines 139 to 191.  \<^verbatim>\<open>match_point\<close> is an \<^verbatim>\<open>int\<close> (declared by
  \<^verbatim>\<open>auto match_point = 0\<close>), so the difference of the two 64-bit bounds is narrowed to
  32 bits.  The loops may run forever; the first argument bounds the number of rounds of
  each loop, and \<open>None\<close> says that the bound was reached.
\<close>

fun inner_loop ::
  "nat \<Rightarrow> ('idx, 'anc, 'ovl) collaborators \<Rightarrow> clock \<Rightarrow> config \<Rightarrow> read_range \<Rightarrow>
   64 word \<Rightarrow> 64 word \<Rightarrow> sweep_state \<Rightarrow> sweep_state option" where
  "inner_loop 0 C clk cfg query_range target_start target_end st = None"
| "inner_loop (Suc n) C clk cfg query_range target_start target_end st =
    (let target_range = (target_start, target_end);
         target_ranges = [query_range, target_range];
         new_index = create_index C (input_filepath cfg) (cfg_k cfg) (cfg_w cfg) target_ranges;
         match_point = (ucast (snd query_range - fst query_range) :: 32 word);
         st' = measured_stages C clk INNER_CROSS (Some target_range) target_ranges
                 new_index match_point st
     in if number_of_reads C new_index < index_size cfg * 2 then Some st'
        else inner_loop n C clk cfg query_range
               (target_end + 1) (target_end + 1 + index_size cfg) st')"

text \<open>Lines 193 and 194.\<close>

definition advance_query :: "config \<Rightarrow> sweep_state \<Rightarrow> sweep_state" where
  "advance_query cfg st =
    (let qs = query_end st + 1 in st\<lparr>query_start := qs, query_end := qs + index_size cfg\<rparr>)"

text \<open>Lines 85 to 195.\<close>

fun outer_loop ::
  "nat \<Rightarrow> ('idx, 'anc, 'ovl) collaborators \<Rightarrow> clock \<Rightarrow> config \<Rightarrow> sweep_state \<Rightarrow>
   sweep_state option" where
  "outer_loop 0 C clk cfg st = None"
| "outer_loop (Suc n) C clk cfg st =
    (let query_range = (query_start st, query_end st);
         ranges = [query_range];
         index = create_index C (input_filepath cfg) (cfg_k cfg) (cfg_w cfg) ranges;
         match_point = 0;
         st1 = measured_stages C clk OUTER_SELF None ranges index match_point st;
         target_start = query_end st + 1;
         target_end = target_start + index_size cfg
     in if number_of_reads C index < index_size cfg then Some st1
        else (case inner_loop n C clk cfg query_range target_start target_end st1 of
                None \<Rightarrow> None
              | Some st2 \<Rightarrow> outer_loop n C clk cfg (advance_query cfg st2)))"

text \<open>Lines 74 to 83: the variables before the first pass.\<close>

definition initial_state :: "config \<Rightarrow> sweep_state" where
  "initial_state cfg =
    \<lparr>query_start = 0, query_end = 0 + index_size cfg,
     index_time = 0, matcher_time = 0, overlapper_time = 0, paf_time = 0,
     clock_reads = 0, out_stream = [], err_stream = [], trace = []\<rparr>"

text \<open>Lines 196 to 200: the summary on the error stream.\<close>

definition report :: "sweep_state \<Rightarrow> sweep_state" where
  "report st = st\<lparr>err_stream := err_stream st @
     [Blank, StageTime Index (index_time st), StageTime Matcher (matcher_time st),
      StageTime Overlapper (overlapper_time st), StageTime PafOutput (paf_time st)]\<rparr>"

text \<open>Lines 73 to 201: the sweep from the first pass to the summary.\<close>

definition sweep ::
  "nat \<Rightarrow> ('idx, 'anc, 'ovl) collaborators \<Rightarrow> clock \<Rightarrow> config \<Rightarrow> sweep_state option" where
  "sweep fuel C clk cfg = map_option report (outer_loop fuel C clk cfg (initial_state cfg))"

subsection \<open>Options and checks before the sweep (lines 36 to 71)\<close>

text \<open>
  What the process writes to the standard output: the text of \<^verbatim>\<open>help()\<close>, or what one
  call of \<^verbatim>\<open>print_paf\<close> writes.
\<close>

datatype out_line = Usage | Paf string

text \<open>
  How the process ends: \<^verbatim>\<open>exit\<close> or \<^verbatim>\<open>return\<close> with a status, or \<^verbatim>\<open>atoi\<close>
  called on a null \<^verbatim>\<open>optarg\<close> (the long option \<^verbatim>\<open>--index-size\<close> is declared with
  \<^verbatim>\<open>optional_argument\<close>), which the C++ leaves undefined.
\<close>

datatype ending = Exited int | NullOptarg

record process =
  ending :: ending
  std_out :: "out_line list"
  std_err :: "err_line list"

text \<open>
  Lines 41 to 58.  \<^verbatim>\<open>getopt_long\<close> and \<^verbatim>\<open>atoi\<close> belong to the C library: the loop
  is given the successive return values of \<^verbatim>\<open>getopt_long\<close>, each with the
  \<^verbatim>\<open>optarg\<close> it leaves, and \<^verbatim>\<open>atoi\<close> as a function to \<^verbatim>\<open>int\<close>.  The codes are
  \<open>107\<close> for \<^verbatim>\<open>'k'\<close>, \<open>119\<close> for \<^verbatim>\<open>'w'\<close>, \<open>105\<close> for \<^verbatim>\<open>'i'\<close> and \<open>104\<close> for
  \<^verbatim>\<open>'h'\<close>; \<open>-1\<close> ends the loop, as the end of the list does.  The assignment to
  \<^verbatim>\<open>index_size\<close> converts the \<^verbatim>\<open>int\<close> to \<^verbatim>\<open>size_t\<close>, extending its sign.
\<close>

fun parse_options ::
  "(string \<Rightarrow> 32 word) \<Rightarrow> (32 word \<times> string option) list \<Rightarrow>
   32 word \<times> 32 word \<times> 64 word \<Rightarrow> process + 32 word \<times> 32 word \<times> 64 word" where
  "parse_options atoi [] (k, w, isize) = Inr (k, w, isize)"
| "parse_options atoi ((argument, optarg) # rest) (k, w, isize) =
    (if argument = - 1 then Inr (k, w, isize)
     else if argument = 107 then
       (case optarg of
          None \<Rightarrow> Inl \<lparr>ending = NullOptarg, std_out = [], std_err = []\<rparr>
        | Some a \<Rightarrow> parse_options atoi rest (atoi a, w, isize))
     else if argument = 119 then
       (case optarg of
          None \<Rightarrow> Inl \<lparr>ending = NullOptarg, std_out = [], std_err = []\<rparr>
        | Some a \<Rightarrow> parse_options atoi rest (k, atoi a, isize))
     else if argument = 105 then
       (case optarg of
          None \<Rightarrow> Inl \<lparr>ending = NullOptarg, std_out = [], std_err = []\<rparr>
        | Some a \<Rightarrow> parse_options atoi rest (k, w, scast (atoi a)))
     else if argument = 104 then Inl \<lparr>ending = Exited 0, std_out = [Usage], std_err = []\<rparr>
     else Inl \<lparr>ending = Exited 1, std_out = [], std_err = []\<rparr>)"

text \<open>
  Lines 32 to 202.  \<open>operands\<close> are the arguments from \<^verbatim>\<open>argv[optind]\<close> on, so
  \<^verbatim>\<open>optind >= argc\<close> says that there is none.  \<open>None\<close> says that the sweep did not
  end within the bound.
\<close>

definition main ::
  "nat \<Rightarrow> (string \<Rightarrow> 32 word) \<Rightarrow> ('idx, 'anc, 'ovl) collaborators \<Rightarrow> clock \<Rightarrow>
   (32 word \<times> string option) list \<Rightarrow> string list \<Rightarrow> process option" where
  "main fuel atoi C clk getopt_returns operands =
    (case parse_options atoi getopt_returns (15, 15, 10000) of
       Inl p \<Rightarrow> Some p
     | Inr (k, w, isize) \<Rightarrow>
         (case operands of
            [] \<Rightarrow> Some \<lparr>ending = Exited 1, std_out = [Usage], std_err = []\<rparr>
          | path # _ \<Rightarrow>
              if ucast k > maximum_kmer_size C
              then Some \<lparr>ending = Exited 1, std_out = [],
                         std_err = [KmerNotAllowed k (maximum_kmer_size C)]\<rparr>
              else map_option
                     (\<lambda>st. \<lparr>ending = Exited 0, std_out = map Paf (out_stream st),
                            std_err = err_stream st\<rparr>)
                     (sweep fuel C clk
                        \<lparr>cfg_k = k, cfg_w = w, index_size = isize, input_filepath = path\<rparr>)))"

subsection \<open>What a run shows\<close>

text \<open>The passes of a run: their kinds with the ranges indexed, and how many of each kind.\<close>

definition visited :: "sweep_state \<Rightarrow> (kind \<times> read_range list) list" where
  "visited st = map (\<lambda>s. (step_kind s, step_ranges s)) (trace st)"

definition outer_self_steps :: "sweep_state \<Rightarrow> step list" where
  "outer_self_steps st = filter (\<lambda>s. step_kind s = OUTER_SELF) (trace st)"


text \<open>
  The shape of one pass, and of two passes in a row, for a batch size: what the loops
  establish at every pass whatever the collaborators answer.
\<close>

definition step_ok :: "config \<Rightarrow> step \<Rightarrow> bool" where
  "step_ok cfg s =
    (snd (step_query s) = fst (step_query s) + index_size cfg \<and>
     (case step_kind s of
        OUTER_SELF \<Rightarrow>
          step_target s = None \<and> step_ranges s = [step_query s] \<and> step_match_point s = 0
      | INNER_CROSS \<Rightarrow>
          (case step_target s of
             None \<Rightarrow> False
           | Some t \<Rightarrow>
               snd t = fst t + index_size cfg \<and> step_ranges s = [step_query s, t] \<and>
               step_match_point s = ucast (snd (step_query s) - fst (step_query s)))))"

definition next_ok :: "config \<Rightarrow> step \<Rightarrow> step \<Rightarrow> bool" where
  "next_ok cfg s s' =
    (case step_kind s of
       OUTER_SELF \<Rightarrow>
         \<not> step_reads s < index_size cfg \<and> step_kind s' = INNER_CROSS \<and>
         step_query s' = step_query s \<and>
         step_target s' =
           Some (snd (step_query s) + 1, snd (step_query s) + 1 + index_size cfg)
     | INNER_CROSS \<Rightarrow>
         if step_reads s < index_size cfg * 2
         then step_kind s' = OUTER_SELF \<and>
              step_query s' =
                (snd (step_query s) + 1, snd (step_query s) + 1 + index_size cfg)
         else step_kind s' = INNER_CROSS \<and> step_query s' = step_query s \<and>
              step_target s' =
                map_option (\<lambda>t. (snd t + 1, snd t + 1 + index_size cfg)) (step_target s))"

subsection \<open>The index over a collection of reads\<close>

text \<open>
  Modelled from the spec: \<^verbatim>\<open>Index::create_index\<close> and \<^verbatim>\<open>number_of_reads\<close> are
  declared in \<^verbatim>\<open>cudamapper/index.hpp\<close>, which is not among the sources.  The spec
  takes a read range as the half-open interval from its first to its second component, and
  lets the index report how many reads it really holds, fewer than asked for near the end
  of the input.  For a collection of \<open>N\<close> reads, numbered from \<open>0\<close>:
\<close>

definition reads_in_range :: "nat \<Rightarrow> read_range \<Rightarrow> nat" where
  "reads_in_range N r = min (unat (snd r)) N - min (unat (fst r)) N"

definition reads_in_ranges :: "nat \<Rightarrow> read_range list \<Rightarrow> 64 word" where
  "reads_in_ranges N rs = of_nat (sum_list (map (reads_in_range N) rs))"

text \<open>
  Modelled from the spec: collaborators whose index reports, for the ranges it was built
  over, the reads of a collection of \<open>N\<close> reads that lie in them.
\<close>

definition indexes_collection :: "('idx, 'anc, 'ovl) collaborators \<Rightarrow> nat \<Rightarrow> bool" where
  "indexes_collection C N =
    (\<forall>path k w rs. number_of_reads C (create_index C path k w rs) = reads_in_ranges N rs)"

text \<open>
  Modelled from the spec: one such set of collaborators, for the runs on concrete inputs.
  The index is the list of its ranges, the anchors and overlaps keep the split point, and
  the text printed tells a pass with split point \<open>0\<close> from the others.
\<close>

definition collection_index ::
  "nat \<Rightarrow> (read_range list, read_range list \<times> 32 word, read_range list \<times> 32 word) collaborators"
  where
  "collection_index N =
    \<lparr>create_index = (\<lambda>path k w rs. rs),
     number_of_reads = reads_in_ranges N,
     matcher_anchors = (\<lambda>index match_point. (index, match_point)),
     get_overlaps = (\<lambda>anchors index. anchors),
     print_paf = (\<lambda>overlaps. if snd overlaps = 0 then ''self'' else ''cross''),
     maximum_kmer_size = 32\<rparr>"

text \<open>
  The window with number \<open>p\<close> of the sweep, in the arithmetic of \<^verbatim>\<open>size_t\<close>: it
  starts at \<open>p\<close> times \<open>index_size + 1\<close>.
\<close>

definition window :: "64 word \<Rightarrow> nat \<Rightarrow> read_range" where
  "window B p = (of_nat p * (B + 1), of_nat p * (B + 1) + B)"

text \<open>
  Two clocks for the runs on concrete inputs, both with one tick in a millisecond: one that
  advances by a millisecond at each reading, and one that reads five seconds at first and
  is set back to zero after its second reading.
\<close>

definition ticking_clock :: clock where
  "ticking_clock = \<lparr>now = int, ticks_per_ms = 1\<rparr>"

definition set_back_clock :: clock where
  "set_back_clock = \<lparr>now = (\<lambda>n. if n < 2 then 5000 else int n), ticks_per_ms = 1\<rparr>"

text \<open>A configuration with the default \<^verbatim>\<open>k\<close> and \<^verbatim>\<open>w\<close> and a given batch size.\<close>

definition batch_config :: "64 word \<Rightarrow> config" where
  "batch_config B = \<lparr>cfg_k = 15, cfg_w = 15, index_size = B, input_filepath = ''reads.fa''\<rparr>"

text \<open>A state without what depends on the clock: the windows, the standard output and the passes without their counters.\<close>

definition untimed ::
  "sweep_state \<Rightarrow> 64 word \<times> 64 word \<times> string list \<times> (kind \<times> read_range \<times> read_range option \<times> read_range list \<times> 32 word \<times> 64 word) list" where
  "untimed st =
    (query_start st, query_end st, out_stream st,
     map (\<lambda>s. (step_kind s, step_query s, step_target s, step_ranges s, step_match_point s,
                 step_reads s)) (trace st))"

text \<open>
  \<^verbatim>\<open>atoi\<close> on a string of decimal digits, for the runs on concrete inputs.
\<close>

definition decimal_atoi :: "string \<Rightarrow> 32 word" where
  "decimal_atoi s = foldl (\<lambda>acc c. acc * 10 + of_nat (of_char c - 48)) 0 s"

text \<open>A return value of \<^verbatim>\<open>getopt_long\<close> for \<^verbatim>\<open>-k\<close>, \<^verbatim>\<open>-w\<close> or \<^verbatim>\<open>-i\<close> with an argument.\<close>

definition takes_argument :: "32 word \<times> string option \<Rightarrow> bool" where
  "takes_argument r = ((fst r = 107 \<or> fst r = 119 \<or> fst r = 105) \<and> snd r \<noteq> None)"

text \<open>
  The four counters of a state and of the record of a pass, by stage, and the milliseconds
  that pass number \<open>j\<close> (counted from \<open>0\<close>) adds for a stage: every pass reads the
  clock twelve times, and a stage adds the time from its \<^verbatim>\<open>start_time\<close> to its third
  reading.
\<close>

definition counter :: "stage \<Rightarrow> sweep_state \<Rightarrow> int" where
  "counter g st =
    (case g of Index \<Rightarrow> index_time st | Matcher \<Rightarrow> matcher_time st
     | Overlapper \<Rightarrow> overlapper_time st | PafOutput \<Rightarrow> paf_time st)"

definition timer_of :: "stage \<Rightarrow> int \<times> int \<times> int \<times> int \<Rightarrow> int" where
  "timer_of g t =
    (case g of Index \<Rightarrow> fst t | Matcher \<Rightarrow> fst (snd t)
     | Overlapper \<Rightarrow> fst (snd (snd t)) | PafOutput \<Rightarrow> snd (snd (snd t)))"

definition stage_ms :: "clock \<Rightarrow> stage \<Rightarrow> nat \<Rightarrow> int" where
  "stage_ms clk g j =
    (case g of
       Index \<Rightarrow> elapsed_ms clk (12 * j) (12 * j + 2)
     | Matcher \<Rightarrow> elapsed_ms clk (12 * j + 3) (12 * j + 5)
     | Overlapper \<Rightarrow> elapsed_ms clk (12 * j + 6) (12 * j + 8)
     | PafOutput \<Rightarrow> elapsed_ms clk (12 * j + 9) (12 * j + 11))"

text \<open>
  The bookkeeping of the counters after some passes: twelve readings a pass, every counter
  the sum of what the passes added, and every pass recorded with the sums up to it.
\<close>

definition timers_accounted :: "clock \<Rightarrow> sweep_state \<Rightarrow> bool" where
  "timers_accounted clk st =
    (clock_reads st = 12 * length (trace st) \<and>
     (\<forall>g. counter g st = (\<Sum>j<length (trace st). stage_ms clk g j)) \<and>
     (\<forall>j<length (trace st). \<forall>g.
        timer_of g (step_timers (trace st ! j)) = (\<Sum>i\<le>j. stage_ms clk g i)))"

text \<open>
  The passes of a sweep whose windows \<open>0\<close> to \<open>m - 1\<close> are full and whose window
  \<open>m\<close> is not: each full window alone, then against every later window up to window
  \<open>m\<close>; at last window \<open>m\<close> alone.
\<close>

definition window_passes :: "64 word \<Rightarrow> nat \<Rightarrow> nat \<Rightarrow> (kind \<times> read_range list) list" where
  "window_passes B m i =
    (OUTER_SELF, [window B i]) #
    map (\<lambda>j. (INNER_CROSS, [window B i, window B j])) [Suc i..<Suc m]"

definition expected_visits :: "64 word \<Rightarrow> nat \<Rightarrow> (kind \<times> read_range list) list" where
  "expected_visits B m =
    concat (map (window_passes B m) [0..<m]) @ [(OUTER_SELF, [window B m])]"

section \<open>The shape of every run\<close>

lemma measured_stages_query [simp]:
  "query_start (measured_stages C clk knd tgt rs index mp st) = query_start st"
  "query_end (measured_stages C clk knd tgt rs index mp st) = query_end st"
  by (simp_all add: measured_stages_def Let_def)

lemma measured_stages_trace:
  "trace (measured_stages C clk knd tgt rs index mp st) =
     trace st @
       [\<lparr>step_kind = knd, step_query = (query_start st, query_end st), step_target = tgt,
         step_ranges = rs, step_match_point = mp, step_reads = number_of_reads C index,
         step_timers =
           (index_time st + elapsed_ms clk (clock_reads st) (clock_reads st + 2),
            matcher_time st + elapsed_ms clk (clock_reads st + 3) (clock_reads st + 5),
            overlapper_time st + elapsed_ms clk (clock_reads st + 6) (clock_reads st + 8),
            paf_time st + elapsed_ms clk (clock_reads st + 9) (clock_reads st + 11))\<rparr>]"
  by (simp add: measured_stages_def Let_def)

lemma advance_query_simps [simp]:
  "query_start (advance_query cfg st) = query_end st + 1"
  "query_end (advance_query cfg st) = query_end st + 1 + index_size cfg"
  "trace (advance_query cfg st) = trace st"
  by (simp_all add: advance_query_def Let_def)

lemma inner_loop_trace:
  assumes "inner_loop n C clk cfg qr ts te st = Some st'"
    and "qr = (query_start st, query_end st)"
    and "query_end st = query_start st + index_size cfg"
    and "te = ts + index_size cfg"
  shows "\<exists>ys. trace st' = trace st @ ys \<and> ys \<noteq> [] \<and>
           query_start st' = query_start st \<and> query_end st' = query_end st \<and>
           list_all (step_ok cfg) ys \<and> successively (next_ok cfg) ys \<and>
           list_all (\<lambda>s. step_kind s = INNER_CROSS \<and> step_query s = qr) ys \<and>
           step_target (hd ys) = Some (ts, te) \<and>
           step_reads (last ys) < index_size cfg * 2"
  using assms
proof (induction n arbitrary: ts te st)
  case 0
  then show ?case by simp
next
  case (Suc n)
  let ?rs = "[qr, (ts, te)]"
  let ?idx = "create_index C (input_filepath cfg) (cfg_k cfg) (cfg_w cfg) ?rs"
  let ?mp = "ucast (snd qr - fst qr) :: 32 word"
  let ?st1 = "measured_stages C clk INNER_CROSS (Some (ts, te)) ?rs ?idx ?mp st"
  obtain s where tr1: "trace ?st1 = trace st @ [s]"
    and s: "step_kind s = INNER_CROSS" "step_query s = qr" "step_target s = Some (ts, te)"
      "step_ranges s = ?rs" "step_match_point s = ?mp"
      "step_reads s = number_of_reads C ?idx"
    using Suc.prems(2) by (simp add: measured_stages_trace)
  have ok: "step_ok cfg s"
    using s Suc.prems by (simp add: step_ok_def)
  show ?case
  proof (cases "number_of_reads C ?idx < index_size cfg * 2")
    case True
    then have "st' = ?st1" using Suc.prems(1) by (simp add: Let_def)
    then show ?thesis using tr1 s ok True by simp
  next
    case False
    then have run: "inner_loop n C clk cfg qr (te + 1) (te + 1 + index_size cfg) ?st1 = Some st'"
      using Suc.prems(1) by (simp add: Let_def)
    from Suc.IH [OF run] Suc.prems obtain ys where
      ys: "trace st' = trace ?st1 @ ys" "ys \<noteq> []"
        "query_start st' = query_start st" "query_end st' = query_end st"
        "list_all (step_ok cfg) ys" "successively (next_ok cfg) ys"
        "list_all (\<lambda>s. step_kind s = INNER_CROSS \<and> step_query s = qr) ys"
        "step_target (hd ys) = Some (te + 1, te + 1 + index_size cfg)"
        "step_reads (last ys) < index_size cfg * 2"
      by auto
    have hd: "step_kind (hd ys) = INNER_CROSS \<and> step_query (hd ys) = qr"
      using ys(2,7) by (cases ys) simp_all
    have nxt: "next_ok cfg s (hd ys)"
      using s False hd ys(8) by (simp add: next_ok_def)
    have "successively (next_ok cfg) (s # ys)"
      using nxt ys(2,6) by (simp add: successively_Cons)
    then show ?thesis
      using tr1 ys s ok by (intro exI [of _ "s # ys"]) simp
  qed
qed

lemma outer_loop_trace:
  assumes "outer_loop n C clk cfg st = Some st'"
    and "query_end st = query_start st + index_size cfg"
  shows "\<exists>ys. trace st' = trace st @ ys \<and> ys \<noteq> [] \<and>
           list_all (step_ok cfg) ys \<and> successively (next_ok cfg) ys \<and>
           step_kind (hd ys) = OUTER_SELF \<and>
           step_query (hd ys) = (query_start st, query_end st) \<and>
           step_kind (last ys) = OUTER_SELF \<and> step_reads (last ys) < index_size cfg"
  using assms
proof (induction n arbitrary: st)
  case 0
  then show ?case by simp
next
  case (Suc n)
  let ?qr = "(query_start st, query_end st)"
  let ?idx = "create_index C (input_filepath cfg) (cfg_k cfg) (cfg_w cfg) [?qr]"
  let ?st1 = "measured_stages C clk OUTER_SELF None [?qr] ?idx 0 st"
  let ?ts = "query_end st + 1"
  let ?te = "query_end st + 1 + index_size cfg"
  obtain s where tr1: "trace ?st1 = trace st @ [s]"
    and s: "step_kind s = OUTER_SELF" "step_query s = ?qr" "step_target s = None"
      "step_ranges s = [?qr]" "step_match_point s = 0"
      "step_reads s = number_of_reads C ?idx"
    by (simp add: measured_stages_trace)
  have ok: "step_ok cfg s"
    using s Suc.prems(2) by (simp add: step_ok_def)
  show ?case
  proof (cases "number_of_reads C ?idx < index_size cfg")
    case True
    then have "st' = ?st1" using Suc.prems(1) by (simp add: Let_def)
    then show ?thesis using tr1 s ok True by simp
  next
    case False
    then obtain st2 where
      inner: "inner_loop n C clk cfg ?qr ?ts ?te ?st1 = Some st2" and
      outer: "outer_loop n C clk cfg (advance_query cfg st2) = Some st'"
      using Suc.prems(1) by (simp add: Let_def split: option.splits)
    from inner_loop_trace [OF inner] Suc.prems(2) obtain ys1 where
      ys1: "trace st2 = trace ?st1 @ ys1" "ys1 \<noteq> []"
        "query_start st2 = query_start st" "query_end st2 = query_end st"
        "list_all (step_ok cfg) ys1" "successively (next_ok cfg) ys1"
        "list_all (\<lambda>s. step_kind s = INNER_CROSS \<and> step_query s = ?qr) ys1"
        "step_target (hd ys1) = Some (?ts, ?te)"
        "step_reads (last ys1) < index_size cfg * 2"
      by auto
    from Suc.IH [OF outer] obtain ys2 where
      ys2: "trace st' = trace st2 @ ys2" "ys2 \<noteq> []"
        "list_all (step_ok cfg) ys2" "successively (next_ok cfg) ys2"
        "step_kind (hd ys2) = OUTER_SELF"
        "step_query (hd ys2) = (query_end st2 + 1, query_end st2 + 1 + index_size cfg)"
        "step_kind (last ys2) = OUTER_SELF" "step_reads (last ys2) < index_size cfg"
      by auto
    have hd1: "step_kind (hd ys1) = INNER_CROSS \<and> step_query (hd ys1) = ?qr"
      using ys1(2,7) by (cases ys1) simp_all
    have last1: "step_kind (last ys1) = INNER_CROSS \<and> step_query (last ys1) = ?qr"
      using ys1(2,7) last_in_set [OF ys1(2)] by (simp add: list_all_iff)
    have n0: "next_ok cfg s (hd ys1)"
      using s False hd1 ys1(8) by (simp add: next_ok_def)
    have n1: "next_ok cfg (last ys1) (hd ys2)"
      using last1 ys1(4,9) ys2(5,6) by (simp add: next_ok_def)
    have succ: "successively (next_ok cfg) (s # ys1 @ ys2)"
      using n0 n1 ys1(2,6) ys2(2,4)
      by (simp add: successively_Cons successively_append_iff)
    show ?thesis
      using tr1 ys1(1,2,5) ys2(1,2,3,7,8) s ok succ
      by (intro exI [of _ "s # ys1 @ ys2"]) simp
  qed
qed

lemma sweep_trace:
  assumes "sweep fuel C clk cfg = Some st"
  shows "trace st \<noteq> [] \<and> list_all (step_ok cfg) (trace st) \<and>
         successively (next_ok cfg) (trace st) \<and>
         step_kind (hd (trace st)) = OUTER_SELF \<and>
         step_query (hd (trace st)) = (0, index_size cfg) \<and>
         step_kind (last (trace st)) = OUTER_SELF \<and>
         step_reads (last (trace st)) < index_size cfg"
proof -
  obtain st0 where run: "outer_loop fuel C clk cfg (initial_state cfg) = Some st0"
    and st: "st = report st0"
    using assms by (auto simp: sweep_def)
  have "query_end (initial_state cfg) = query_start (initial_state cfg) + index_size cfg"
    by (simp add: initial_state_def)
  from outer_loop_trace [OF run this] show ?thesis
    by (auto simp: st report_def initial_state_def)
qed

lemma successively_nthD:
  "successively P xs \<Longrightarrow> Suc i < length xs \<Longrightarrow> P (xs ! i) (xs ! Suc i)"
proof (induction xs arbitrary: i)
  case Nil
  then show ?case by simp
next
  case (Cons x xs)
  then show ?case
    by (cases i) (auto simp: successively_Cons hd_conv_nth)
qed

lemma sweep_next:
  assumes "sweep fuel C clk cfg = Some st" and "Suc i < length (trace st)"
  shows "next_ok cfg (trace st ! i) (trace st ! Suc i)"
  using sweep_trace [OF assms(1)] assms(2) by (simp add: successively_nthD)

lemma sweep_step:
  assumes "sweep fuel C clk cfg = Some st" and "s \<in> set (trace st)"
  shows "step_ok cfg s"
  using sweep_trace [OF assms(1)] assms(2) by (simp add: list_all_iff)




section \<open>A run on seven reads\<close>

lemma example_run:
  "sweep 3 (collection_index 7) ticking_clock (batch_config 2) =
   Some
    \<lparr>query_start = 6, query_end = 8, index_time = 12, matcher_time = 12,
     overlapper_time = 12, paf_time = 12, clock_reads = 72,
     out_stream = [''self'', ''cross'', ''cross'', ''self'', ''cross'', ''self''],
     err_stream =
       [StageTime Index 1, StageTime Matcher 1, StageTime Overlapper 1, StageTime PafOutput 1,
        StageTime Index 1, StageTime Matcher 1, StageTime Overlapper 1, StageTime PafOutput 1,
        StageTime Index 1, StageTime Matcher 1, StageTime Overlapper 1, StageTime PafOutput 1,
        StageTime Index 1, StageTime Matcher 1, StageTime Overlapper 1, StageTime PafOutput 1,
        StageTime Index 1, StageTime Matcher 1, StageTime Overlapper 1, StageTime PafOutput 1,
        StageTime Index 1, StageTime Matcher 1, StageTime Overlapper 1, StageTime PafOutput 1,
        Blank, StageTime Index 12, StageTime Matcher 12, StageTime Overlapper 12,
        StageTime PafOutput 12],
     trace =
       [\<lparr>step_kind = OUTER_SELF, step_query = (0, 2), step_target = None,
          step_ranges = [(0, 2)], step_match_point = 0, step_reads = 2,
          step_timers = (2, 2, 2, 2)\<rparr>,
        \<lparr>step_kind = INNER_CROSS, step_query = (0, 2), step_target = Some (3, 5),
          step_ranges = [(0, 2), (3, 5)], step_match_point = 2, step_reads = 4,
          step_timers = (4, 4, 4, 4)\<rparr>,
        \<lparr>step_kind = INNER_CROSS, step_query = (0, 2), step_target = Some (6, 8),
          step_ranges = [(0, 2), (6, 8)], step_match_point = 2, step_reads = 3,
          step_timers = (6, 6, 6, 6)\<rparr>,
        \<lparr>step_kind = OUTER_SELF, step_query = (3, 5), step_target = None,
          step_ranges = [(3, 5)], step_match_point = 0, step_reads = 2,
          step_timers = (8, 8, 8, 8)\<rparr>,
        \<lparr>step_kind = INNER_CROSS, step_query = (3, 5), step_target = Some (6, 8),
          step_ranges = [(3, 5), (6, 8)], step_match_point = 2, step_reads = 3,
          step_timers = (10, 10, 10, 10)\<rparr>,
        \<lparr>step_kind = OUTER_SELF, step_query = (6, 8), step_target = None,
          step_ranges = [(6, 8)], step_match_point = 0, step_reads = 1,
          step_timers = (12, 12, 12, 12)\<rparr>]\<rparr>"
  by code_simp

lemma example_run_facts:
  obtains st where
    "sweep 3 (collection_index 7) ticking_clock (batch_config 2) = Some st"
    "map step_kind (trace st) =
       [OUTER_SELF, INNER_CROSS, INNER_CROSS, OUTER_SELF, INNER_CROSS, OUTER_SELF]"
    "map step_reads (trace st) = [2, 4, 3, 2, 3, 1]"
    "map step_query (trace st) = [(0, 2), (0, 2), (0, 2), (3, 5), (3, 5), (6, 8)]"
    "map step_target (trace st) = [None, Some (3, 5), Some (6, 8), None, Some (6, 8), None]"
    "map step_ranges (trace st) =
       [[(0, 2)], [(0, 2), (3, 5)], [(0, 2), (6, 8)], [(3, 5)], [(3, 5), (6, 8)], [(6, 8)]]"
    "map step_match_point (trace st) = [0, 2, 2, 0, 2, 0]"
    "map step_timers (trace st) =
       [(2, 2, 2, 2), (4, 4, 4, 4), (6, 6, 6, 6), (8, 8, 8, 8), (10, 10, 10, 10),
        (12, 12, 12, 12)]"
    "index_time st = 12" "matcher_time st = 12" "overlapper_time st = 12" "paf_time st = 12"
    "out_stream st = [''self'', ''cross'', ''cross'', ''self'', ''cross'', ''self'']"
  by (simp add: example_run)

section \<open>The claims about every run\<close>






text \<open>
  Claim C4.  For two passes in a row: when the second is a pass of the outer loop, its
  query window starts at the \<^verbatim>\<open>query_end\<close> before plus one and ends
  \<^verbatim>\<open>index_size\<close> after its start; when the second is a pass of the inner loop, the
  query window stays, and its target window ends \<^verbatim>\<open>index_size\<close> after its start and
  starts at \<^verbatim>\<open>query_end\<close> plus one on entering the inner loop, at the
  \<^verbatim>\<open>target_end\<close> before plus one otherwise.  All sums are those of \<^verbatim>\<open>size_t\<close>.
\<close>

theorem window_advance:
  assumes "sweep fuel C clk cfg = Some st"
    and "Suc i < length (trace st)"
    and "s = trace st ! i" and "s' = trace st ! Suc i"
  shows "(step_kind s' = OUTER_SELF \<longrightarrow>
       fst (step_query s') = snd (step_query s) + 1 \<and>
       snd (step_query s') = fst (step_query s') + index_size cfg) \<and>
    (step_kind s' = INNER_CROSS \<longrightarrow>
       step_query s' = step_query s \<and>
       (\<exists>t'. step_target s' = Some t' \<and> snd t' = fst t' + index_size cfg \<and>
          (step_kind s = OUTER_SELF \<longrightarrow> fst t' = snd (step_query s) + 1) \<and>
          (step_kind s = INNER_CROSS \<longrightarrow>
             (\<exists>t. step_target s = Some t \<and> fst t' = snd t + 1))))"
proof -
  have nxt: "next_ok cfg s s'"
    using sweep_next [OF assms(1,2)] assms(3,4) by simp
  have "s \<in> set (trace st)"
    using assms(2,3) by simp
  then have ok: "step_ok cfg s"
    by (rule sweep_step [OF assms(1)])
  show ?thesis
  proof (cases "step_kind s")
    case OUTER_SELF
    then show ?thesis using nxt by (simp add: next_ok_def)
  next
    case INNER_CROSS
    then obtain t where "step_target s = Some t"
      using ok by (auto simp: step_ok_def split: option.splits)
    then show ?thesis
      using INNER_CROSS nxt by (auto simp: next_ok_def split: if_splits)
  qed
qed

theorem window_advance_witness:
  "\<exists>st. sweep 3 (collection_index 7) ticking_clock (batch_config 2) = Some st \<and>
     Suc 1 < length (trace st) \<and>
     map step_kind (trace st) =
       [OUTER_SELF, INNER_CROSS, INNER_CROSS, OUTER_SELF, INNER_CROSS, OUTER_SELF] \<and>
     map step_query (trace st) = [(0, 2), (0, 2), (0, 2), (3, 5), (3, 5), (6, 8)] \<and>
     map step_target (trace st) =
       [None, Some (3, 5), Some (6, 8), None, Some (6, 8), None] \<and>
     step_query (trace st ! Suc 1) = step_query (trace st ! 1)"
proof -
  obtain st where st: "sweep 3 (collection_index 7) ticking_clock (batch_config 2) = Some st"
    "map step_kind (trace st) =
       [OUTER_SELF, INNER_CROSS, INNER_CROSS, OUTER_SELF, INNER_CROSS, OUTER_SELF]"
    "map step_query (trace st) = [(0, 2), (0, 2), (0, 2), (3, 5), (3, 5), (6, 8)]"
    "map step_target (trace st) = [None, Some (3, 5), Some (6, 8), None, Some (6, 8), None]"
    by (rule example_run_facts)
  have "length (map step_kind (trace st)) = 6"
    by (simp only: st(2)) simp
  then have len: "Suc 1 < length (trace st)"
    by simp
  have "map step_kind (trace st) ! Suc 1 = INNER_CROSS"
    by (simp only: st(2)) simp
  then have k: "step_kind (trace st ! Suc 1) = INNER_CROSS"
    using len by simp
  have "step_query (trace st ! Suc 1) = step_query (trace st ! 1)"
    using window_advance [OF st(1) len refl refl] k by simp
  then show ?thesis
    using len by - (rule exI [of _ st], simp add: st)
qed




section \<open>Runs under different clocks\<close>

lemma untimed_measured_stages:
  assumes "untimed st1 = untimed st2"
  shows "untimed (measured_stages C clk1 knd tgt rs index mp st1) =
         untimed (measured_stages C clk2 knd tgt rs index mp st2)"
  using assms by (simp add: untimed_def measured_stages_def Let_def)

lemma untimed_advance_query:
  assumes "untimed st1 = untimed st2"
  shows "untimed (advance_query cfg st1) = untimed (advance_query cfg st2)"
  using assms by (simp add: untimed_def advance_query_def Let_def)

lemma inner_loop_untimed:
  assumes "untimed st1 = untimed st2"
  shows "map_option untimed (inner_loop n C clk1 cfg qr ts te st1) =
         map_option untimed (inner_loop n C clk2 cfg qr ts te st2)"
  using assms
proof (induction n arbitrary: ts te st1 st2)
  case 0
  then show ?case by simp
next
  case (Suc n)
  let ?idx = "create_index C (input_filepath cfg) (cfg_k cfg) (cfg_w cfg) [qr, (ts, te)]"
  let ?mp = "ucast (snd qr - fst qr) :: 32 word"
  have eq: "untimed (measured_stages C clk1 INNER_CROSS (Some (ts, te)) [qr, (ts, te)] ?idx ?mp st1) =
      untimed (measured_stages C clk2 INNER_CROSS (Some (ts, te)) [qr, (ts, te)] ?idx ?mp st2)"
    using Suc.prems by (rule untimed_measured_stages)
  show ?case
  proof (cases "number_of_reads C ?idx < index_size cfg * 2")
    case True
    then show ?thesis using eq by (simp add: Let_def)
  next
    case False
    then show ?thesis
      using Suc.IH [OF eq, of "te + 1" "te + 1 + index_size cfg"] by (simp add: Let_def)
  qed
qed

lemma outer_loop_untimed:
  assumes "untimed st1 = untimed st2"
  shows "map_option untimed (outer_loop n C clk1 cfg st1) =
         map_option untimed (outer_loop n C clk2 cfg st2)"
  using assms
proof (induction n arbitrary: st1 st2)
  case 0
  then show ?case by simp
next
  case (Suc n)
  have q: "query_start st1 = query_start st2" "query_end st1 = query_end st2"
    using Suc.prems by (simp_all add: untimed_def)
  let ?qr = "(query_start st2, query_end st2)"
  let ?idx = "create_index C (input_filepath cfg) (cfg_k cfg) (cfg_w cfg) [?qr]"
  let ?ts = "query_end st2 + 1"
  let ?te = "query_end st2 + 1 + index_size cfg"
  define a where "a = measured_stages C clk1 OUTER_SELF None [?qr] ?idx 0 st1"
  define b where "b = measured_stages C clk2 OUTER_SELF None [?qr] ?idx 0 st2"
  have L1: "outer_loop (Suc n) C clk1 cfg st1 =
      (if number_of_reads C ?idx < index_size cfg then Some a
       else (case inner_loop n C clk1 cfg ?qr ?ts ?te a of
               None \<Rightarrow> None
             | Some s \<Rightarrow> outer_loop n C clk1 cfg (advance_query cfg s)))"
    by (simp only: outer_loop.simps Let_def q a_def)
  have L2: "outer_loop (Suc n) C clk2 cfg st2 =
      (if number_of_reads C ?idx < index_size cfg then Some b
       else (case inner_loop n C clk2 cfg ?qr ?ts ?te b of
               None \<Rightarrow> None
             | Some s \<Rightarrow> outer_loop n C clk2 cfg (advance_query cfg s)))"
    by (simp only: outer_loop.simps Let_def b_def)
  have eq: "untimed a = untimed b"
    unfolding a_def b_def using Suc.prems by (rule untimed_measured_stages)
  show ?case
  proof (cases "number_of_reads C ?idx < index_size cfg")
    case True
    then show ?thesis by (simp only: L1 L2 if_True option.map eq)
  next
    case False
    have inner: "map_option untimed (inner_loop n C clk1 cfg ?qr ?ts ?te a) =
        map_option untimed (inner_loop n C clk2 cfg ?qr ?ts ?te b)"
      using eq by (rule inner_loop_untimed)
    show ?thesis
    proof (cases "inner_loop n C clk1 cfg ?qr ?ts ?te a")
      case None
      then have "inner_loop n C clk2 cfg ?qr ?ts ?te b = None"
        using inner by simp
      then show ?thesis
        by (simp only: L1 L2 False if_False None option.case option.map)
    next
      case (Some a2)
      then have "map_option untimed (inner_loop n C clk2 cfg ?qr ?ts ?te b) = Some (untimed a2)"
        using inner by simp
      then obtain b2 where b2: "inner_loop n C clk2 cfg ?qr ?ts ?te b = Some b2"
        and ab: "untimed a2 = untimed b2"
        by auto
      from ab have "untimed (advance_query cfg a2) = untimed (advance_query cfg b2)"
        by (rule untimed_advance_query)
      from Suc.IH [OF this] show ?thesis
        by (simp only: L1 L2 False if_False Some b2 option.case)
    qed
  qed
qed

lemma inner_loop_fuel:
  assumes "inner_loop n C clk cfg qr ts te st = Some st'" and "n \<le> m"
  shows "inner_loop m C clk cfg qr ts te st = Some st'"
  using assms
proof (induction n arbitrary: m ts te st)
  case 0
  then show ?case by simp
next
  case (Suc n)
  then obtain m' where m: "m = Suc m'" "n \<le> m'"
    by (cases m) simp_all
  show ?case
    using Suc.prems(1) Suc.IH [OF _ m(2)]
    by (auto simp: m(1) Let_def split: if_splits)
qed

lemma outer_loop_fuel:
  assumes "outer_loop n C clk cfg st = Some st'" and "n \<le> m"
  shows "outer_loop m C clk cfg st = Some st'"
  using assms
proof (induction n arbitrary: m st)
  case 0
  then show ?case by simp
next
  case (Suc n)
  then obtain m' where m: "m = Suc m'" "n \<le> m'"
    by (cases m) simp_all
  let ?qr = "(query_start st, query_end st)"
  let ?idx = "create_index C (input_filepath cfg) (cfg_k cfg) (cfg_w cfg) [?qr]"
  let ?st1 = "measured_stages C clk OUTER_SELF None [?qr] ?idx 0 st"
  show ?case
  proof (cases "number_of_reads C ?idx < index_size cfg")
    case True
    then show ?thesis using Suc.prems(1) by (simp add: m(1) Let_def)
  next
    case False
    then obtain st2 where
      inner: "inner_loop n C clk cfg ?qr (query_end st + 1)
                (query_end st + 1 + index_size cfg) ?st1 = Some st2" and
      outer: "outer_loop n C clk cfg (advance_query cfg st2) = Some st'"
      using Suc.prems(1) by (simp add: Let_def split: option.splits)
    show ?thesis
      using False inner_loop_fuel [OF inner m(2)] Suc.IH [OF outer m(2)]
      by (simp add: m(1) Let_def)
  qed
qed

lemma sweep_fuel:
  assumes "sweep n C clk cfg = Some st" and "n \<le> m"
  shows "sweep m C clk cfg = Some st"
proof -
  obtain st0 where run: "outer_loop n C clk cfg (initial_state cfg) = Some st0"
    and st: "st = report st0"
    using assms(1) by (auto simp: sweep_def)
  from outer_loop_fuel [OF run assms(2)] st show ?thesis
    by (simp add: sweep_def)
qed

lemma sweep_untimed:
  "map_option untimed (sweep n C clk1 cfg) = map_option untimed (sweep n C clk2 cfg)"
proof -
  have eq: "map_option untimed (outer_loop n C clk1 cfg (initial_state cfg)) =
      map_option untimed (outer_loop n C clk2 cfg (initial_state cfg))"
    by (rule outer_loop_untimed) (rule refl)
  have rep: "untimed (report st) = untimed st" for st
    by (simp add: untimed_def report_def)
  have "map_option untimed (sweep n C clk cfg) =
      map_option untimed (outer_loop n C clk cfg (initial_state cfg))" for clk
    by (cases "outer_loop n C clk cfg (initial_state cfg)") (simp_all add: sweep_def rep)
  then show ?thesis
    using eq by simp
qed

lemma sweep_out_stream:
  assumes "sweep n C clk1 cfg = Some st1" and "sweep m C clk2 cfg = Some st2"
  shows "untimed st1 = untimed st2"
proof -
  have "sweep (max n m) C clk1 cfg = Some st1" "sweep (max n m) C clk2 cfg = Some st2"
    using assms by (auto intro: sweep_fuel)
  then show ?thesis
    using sweep_untimed [of "max n m" C clk1 cfg clk2] by simp
qed

text \<open>
  Claim C8.  Two executions with the same answers of \<^verbatim>\<open>getopt_long\<close> and
  \<^verbatim>\<open>atoi\<close>, the same operands and the same collaborators, whatever their clocks read,
  write the same lines to the standard output in the same order, and end alike, provided
  both end.
\<close>

theorem paf_records_deterministic:
  assumes "main n atoi C clk1 getopt_returns operands = Some p1"
    and "main m atoi C clk2 getopt_returns operands = Some p2"
  shows "std_out p1 = std_out p2 \<and> ending p1 = ending p2"
proof (cases "parse_options atoi getopt_returns (15, 15, 10000)")
  case (Inl p)
  then show ?thesis using assms by (simp add: main_def)
next
  case (Inr c)
  obtain k w isize where c: "c = (k, w, isize)"
    by (cases c)
  show ?thesis
  proof (cases operands)
    case Nil
    then show ?thesis using assms Inr c by (simp add: main_def)
  next
    case (Cons path rest)
    show ?thesis
    proof (cases "ucast k > maximum_kmer_size C")
      case True
      then show ?thesis using assms Inr c Cons by (simp add: main_def)
    next
      case False
      let ?cfg = "\<lparr>cfg_k = k, cfg_w = w, index_size = isize, input_filepath = path\<rparr>"
      from assms Inr c Cons False obtain st1 st2 where
        st: "sweep n C clk1 ?cfg = Some st1" "sweep m C clk2 ?cfg = Some st2"
        and p: "p1 = \<lparr>ending = Exited 0, std_out = map Paf (out_stream st1), std_err = err_stream st1\<rparr>"
          "p2 = \<lparr>ending = Exited 0, std_out = map Paf (out_stream st2), std_err = err_stream st2\<rparr>"
        by (auto simp: main_def)
      from sweep_out_stream [OF st] have "out_stream st1 = out_stream st2"
        by (simp add: untimed_def)
      then show ?thesis using p by simp
    qed
  qed
qed


lemma example_main_ticking:
  "map_option std_out
     (main 3 decimal_atoi (collection_index 7) ticking_clock [(105, Some ''2'')] [''reads.fa'']) =
   Some [Paf ''self'', Paf ''cross'', Paf ''cross'', Paf ''self'', Paf ''cross'', Paf ''self'']"
  by code_simp

lemma example_main_set_back:
  "map_option std_out
     (main 4 decimal_atoi (collection_index 7) set_back_clock [(105, Some ''2'')] [''reads.fa'']) =
   Some [Paf ''self'', Paf ''cross'', Paf ''cross'', Paf ''self'', Paf ''cross'', Paf ''self'']"
  by code_simp

theorem paf_records_deterministic_witness:
  "\<exists>p1 p2.
     main 3 decimal_atoi (collection_index 7) ticking_clock [(105, Some ''2'')] [''reads.fa''] =
       Some p1 \<and>
     main 4 decimal_atoi (collection_index 7) set_back_clock [(105, Some ''2'')] [''reads.fa''] =
       Some p2 \<and>
     std_out p1 = std_out p2 \<and> ending p1 = ending p2 \<and>
     std_out p1 =
       [Paf ''self'', Paf ''cross'', Paf ''cross'', Paf ''self'', Paf ''cross'', Paf ''self'']"
proof -
  obtain p1 where p1:
    "main 3 decimal_atoi (collection_index 7) ticking_clock [(105, Some ''2'')] [''reads.fa''] =
       Some p1"
    "std_out p1 =
       [Paf ''self'', Paf ''cross'', Paf ''cross'', Paf ''self'', Paf ''cross'', Paf ''self'']"
    using example_main_ticking by auto
  obtain p2 where p2:
    "main 4 decimal_atoi (collection_index 7) set_back_clock [(105, Some ''2'')] [''reads.fa''] =
       Some p2"
    using example_main_set_back by auto
  from paf_records_deterministic [OF p1(1) p2] p1 p2 show ?thesis
    by (intro exI [of _ p1] exI [of _ p2]) simp
qed

section \<open>The timing counters\<close>

lemma sdiv_nonneg: "0 \<le> (a :: int) \<Longrightarrow> 0 < b \<Longrightarrow> 0 \<le> a sdiv b"
  by (simp add: signed_divide_int_def sgn_if pos_imp_zdiv_nonneg_iff)

lemma inner_loop_invariant:
  assumes step: "\<And>knd tgt rs idx mp s. P s \<Longrightarrow> P (measured_stages C clk knd tgt rs idx mp s)"
    and "inner_loop n C clk cfg qr ts te st = Some st'" and "P st"
  shows "P st'"
  using assms(2,3)
proof (induction n arbitrary: ts te st)
  case 0
  then show ?case by simp
next
  case (Suc n)
  let ?idx = "create_index C (input_filepath cfg) (cfg_k cfg) (cfg_w cfg) [qr, (ts, te)]"
  let ?st1 = "measured_stages C clk INNER_CROSS (Some (ts, te)) [qr, (ts, te)] ?idx
                (ucast (snd qr - fst qr)) st"
  have P1: "P ?st1"
    using Suc.prems(2) by (rule step)
  show ?case
  proof (cases "number_of_reads C ?idx < index_size cfg * 2")
    case True
    then have "st' = ?st1" using Suc.prems(1) by (simp add: Let_def)
    then show ?thesis using P1 by simp
  next
    case False
    then have "inner_loop n C clk cfg qr (te + 1) (te + 1 + index_size cfg) ?st1 = Some st'"
      using Suc.prems(1) by (simp add: Let_def)
    then show ?thesis using P1 by (rule Suc.IH)
  qed
qed

lemma outer_loop_invariant:
  assumes step: "\<And>knd tgt rs idx mp s. P s \<Longrightarrow> P (measured_stages C clk knd tgt rs idx mp s)"
    and adv: "\<And>s. P s \<Longrightarrow> P (advance_query cfg s)"
    and "outer_loop n C clk cfg st = Some st'" and "P st"
  shows "P st'"
  using assms(3,4)
proof (induction n arbitrary: st)
  case 0
  then show ?case by simp
next
  case (Suc n)
  let ?qr = "(query_start st, query_end st)"
  let ?idx = "create_index C (input_filepath cfg) (cfg_k cfg) (cfg_w cfg) [?qr]"
  let ?st1 = "measured_stages C clk OUTER_SELF None [?qr] ?idx 0 st"
  have P1: "P ?st1"
    using Suc.prems(2) by (rule step)
  show ?case
  proof (cases "number_of_reads C ?idx < index_size cfg")
    case True
    then have "st' = ?st1" using Suc.prems(1) by (simp add: Let_def)
    then show ?thesis using P1 by simp
  next
    case False
    then obtain st2 where
      inner: "inner_loop n C clk cfg ?qr (query_end st + 1)
                (query_end st + 1 + index_size cfg) ?st1 = Some st2" and
      outer: "outer_loop n C clk cfg (advance_query cfg st2) = Some st'"
      using Suc.prems(1) by (simp add: Let_def split: option.splits)
    have "P st2"
      using step inner P1 by (rule inner_loop_invariant)
    then have "P (advance_query cfg st2)"
      by (rule adv)
    with outer show ?thesis by (rule Suc.IH)
  qed
qed


lemma timers_accounted_initial: "timers_accounted clk (initial_state cfg)"
  by (simp add: timers_accounted_def initial_state_def counter_def split: stage.splits)

lemma counter_advance_query: "counter g (advance_query cfg st) = counter g st"
  by (cases g) (simp_all add: counter_def advance_query_def Let_def)

lemma counter_report: "counter g (report st) = counter g st"
  by (cases g) (simp_all add: counter_def report_def)

lemma timers_accounted_advance_query:
  "timers_accounted clk st \<Longrightarrow> timers_accounted clk (advance_query cfg st)"
  by (simp add: timers_accounted_def counter_advance_query)
    (simp add: advance_query_def Let_def)

lemma timers_accounted_measured_stages:
  assumes "timers_accounted clk st"
  shows "timers_accounted clk (measured_stages C clk knd tgt rs idx mp st)"
proof -
  let ?n = "length (trace st)"
  let ?st' = "measured_stages C clk knd tgt rs idx mp st"
  have r: "clock_reads st = 12 * ?n"
    and c: "\<And>g. counter g st = (\<Sum>j<?n. stage_ms clk g j)"
    and t: "\<And>j g. j < ?n \<Longrightarrow>
      timer_of g (step_timers (trace st ! j)) = (\<Sum>i\<le>j. stage_ms clk g i)"
    using assms by (simp_all add: timers_accounted_def)
  have len: "length (trace ?st') = Suc ?n"
    by (simp add: measured_stages_def Let_def)
  have reads: "clock_reads ?st' = 12 * Suc ?n"
    using r by (simp add: measured_stages_def Let_def)
  have add: "counter g ?st' = counter g st + stage_ms clk g ?n" for g
    using r by (cases g) (simp_all add: measured_stages_def Let_def counter_def stage_ms_def)
  have c': "counter g ?st' = (\<Sum>j<Suc ?n. stage_ms clk g j)" for g
    by (simp add: add c)
  have old: "trace ?st' ! j = trace st ! j" if "j < ?n" for j
    using that by (simp add: measured_stages_def Let_def nth_append)
  have new: "timer_of g (step_timers (trace ?st' ! ?n)) = counter g ?st'" for g
    by (cases g) (simp_all add: measured_stages_def Let_def counter_def timer_of_def)
  have t': "timer_of g (step_timers (trace ?st' ! j)) = (\<Sum>i\<le>j. stage_ms clk g i)"
    if "j < Suc ?n" for j g
  proof (cases "j < ?n")
    case True
    then show ?thesis by (simp add: old t)
  next
    case False
    then have "j = ?n" using that by simp
    then show ?thesis by (simp add: new c' lessThan_Suc_atMost)
  qed
  show ?thesis
    unfolding timers_accounted_def using reads c' t' len by simp
qed

lemma sweep_timers_accounted:
  assumes "sweep fuel C clk cfg = Some st"
  shows "timers_accounted clk st"
proof -
  obtain st0 where run: "outer_loop fuel C clk cfg (initial_state cfg) = Some st0"
    and st: "st = report st0"
    using assms by (auto simp: sweep_def)
  have "timers_accounted clk st0"
    using timers_accounted_measured_stages timers_accounted_advance_query run
      timers_accounted_initial
    by (rule outer_loop_invariant)
  then show ?thesis
    by (simp add: st timers_accounted_def counter_report) (simp add: report_def)
qed

lemma clock_mono:
  assumes "\<And>n. now clk n \<le> now clk (Suc n)" and "a \<le> b"
  shows "now clk a \<le> now clk b"
  using assms by (simp add: lift_Suc_mono_le)

lemma stage_ms_nonneg:
  assumes "\<And>n. now clk n \<le> now clk (Suc n)" and "0 < ticks_per_ms clk"
  shows "0 \<le> stage_ms clk g j"
proof -
  have "0 \<le> elapsed_ms clk a b" if "a \<le> b" for a b
    unfolding elapsed_ms_def
    using clock_mono [OF assms(1) that] assms(2) by (intro sdiv_nonneg) simp_all
  then show ?thesis
    by (cases g) (simp_all add: stage_ms_def)
qed


text \<open>
  Claim C9, amended.  Every counter starts at zero.  In a run that ends, every pass, of the
  outer or of the inner loop, adds to each counter the milliseconds measured for its stage
  (from the stage's \<^verbatim>\<open>start_time\<close> to the reading taken for the counter), and nothing
  else changes a counter: after pass \<open>j\<close> the counter is the sum of what the passes up
  to \<open>j\<close> added, and the value in the summary is the sum over all passes.  When the
  readings of the clock never decrease and a millisecond has a positive number of ticks,
  every counter is non-negative and never decreases from one pass to the next.
\<close>

theorem timers_account:
  assumes "sweep fuel C clk cfg = Some st"
  shows "counter g (initial_state cfg) = 0 \<and>
    counter g st = (\<Sum>j<length (trace st). stage_ms clk g j) \<and>
    (\<forall>j<length (trace st).
       timer_of g (step_timers (trace st ! j)) = (\<Sum>i\<le>j. stage_ms clk g i)) \<and>
    (\<exists>lines. err_stream st = lines @
       [Blank, StageTime Index (counter Index st), StageTime Matcher (counter Matcher st),
        StageTime Overlapper (counter Overlapper st),
        StageTime PafOutput (counter PafOutput st)]) \<and>
    ((\<forall>n. now clk n \<le> now clk (Suc n)) \<and> 0 < ticks_per_ms clk \<longrightarrow>
       0 \<le> counter g st \<and>
       (\<forall>j<length (trace st).
          0 \<le> stage_ms clk g j \<and>
          0 \<le> timer_of g (step_timers (trace st ! j)) \<and>
          (Suc j < length (trace st) \<longrightarrow>
             timer_of g (step_timers (trace st ! j)) \<le>
             timer_of g (step_timers (trace st ! Suc j)))))"
proof -
  have acc: "timers_accounted clk st"
    using assms by (rule sweep_timers_accounted)
  have zero: "counter g (initial_state cfg) = 0"
    by (cases g) (simp_all add: counter_def initial_state_def)
  have total: "counter g st = (\<Sum>j<length (trace st). stage_ms clk g j)"
    using acc by (simp add: timers_accounted_def)
  have part: "timer_of g (step_timers (trace st ! j)) = (\<Sum>i\<le>j. stage_ms clk g i)"
    if "j < length (trace st)" for j
    using acc that by (simp add: timers_accounted_def)
  obtain st0 where "st = report st0"
    using assms by (auto simp: sweep_def)
  then have summary: "\<exists>lines. err_stream st = lines @
       [Blank, StageTime Index (counter Index st), StageTime Matcher (counter Matcher st),
        StageTime Overlapper (counter Overlapper st),
        StageTime PafOutput (counter PafOutput st)]"
    by (simp add: report_def counter_def)
  have mono: "0 \<le> counter g st \<and>
       (\<forall>j<length (trace st).
          0 \<le> stage_ms clk g j \<and>
          0 \<le> timer_of g (step_timers (trace st ! j)) \<and>
          (Suc j < length (trace st) \<longrightarrow>
             timer_of g (step_timers (trace st ! j)) \<le>
             timer_of g (step_timers (trace st ! Suc j))))"
    if clk: "\<forall>n. now clk n \<le> now clk (Suc n)" "0 < ticks_per_ms clk"
  proof -
    have nn: "0 \<le> stage_ms clk g j" for j
      using clk by (intro stage_ms_nonneg) simp_all
    have "0 \<le> counter g st"
      unfolding total by (rule sum_nonneg) (rule nn)
    moreover have "0 \<le> timer_of g (step_timers (trace st ! j))"
      if "j < length (trace st)" for j
      unfolding part [OF that] by (rule sum_nonneg) (rule nn)
    moreover have "timer_of g (step_timers (trace st ! j)) \<le>
        timer_of g (step_timers (trace st ! Suc j))"
      if "Suc j < length (trace st)" for j
    proof -
      have "j < length (trace st)" using that by simp
      then show ?thesis
        using nn [of "Suc j"] by (simp add: part that)
    qed
    ultimately show ?thesis using nn by blast
  qed
  show ?thesis
    using zero total part summary mono by blast
qed


theorem timers_account_witness:
  "\<exists>st. sweep 3 (collection_index 7) ticking_clock (batch_config 2) = Some st \<and>
     (\<forall>n. now ticking_clock n \<le> now ticking_clock (Suc n)) \<and>
     0 < ticks_per_ms ticking_clock \<and>
     counter Index st = 12 \<and> 0 \<le> counter Index st \<and>
     (\<Sum>j<length (trace st). stage_ms ticking_clock Index j) = 12"
proof -
  obtain st where st: "sweep 3 (collection_index 7) ticking_clock (batch_config 2) = Some st"
    "index_time st = 12"
    by (rule example_run_facts)
  have clk: "\<forall>n. now ticking_clock n \<le> now ticking_clock (Suc n)"
    "0 < ticks_per_ms ticking_clock"
    by (simp_all add: ticking_clock_def)
  have c: "counter Index st = 12"
    using st(2) by (simp add: counter_def)
  note t = timers_account [OF st(1), of Index]
  from t have "counter Index st = (\<Sum>j<length (trace st). stage_ms ticking_clock Index j)"
    by blast
  moreover from t clk have "0 \<le> counter Index st"
    by blast
  ultimately show ?thesis
    using st(1) clk c by (intro exI [of _ st]) simp
qed

text \<open>
  Claim C9 as stated fails: \<^verbatim>\<open>high_resolution_clock\<close> need not be steady, and when
  the clock is set back while the first index is built, the counter of the index stage
  ends below zero.
\<close>

theorem timers_negative_counterexample:
  "map_option index_time (sweep 3 (collection_index 7) set_back_clock (batch_config 2)) =
     Some (- 4988)"
  by code_simp

section \<open>Before the sweep\<close>

lemma parse_options_skip:
  assumes "list_all takes_argument pre"
  shows "\<exists>acc'. parse_options atoi (pre @ rest) acc = parse_options atoi rest acc'"
  using assms
proof (induction pre arbitrary: acc)
  case Nil
  show ?case by (intro exI [of _ acc]) simp
next
  case (Cons r pre)
  obtain c a where r: "r = (c, a)" by (cases r)
  obtain k w isize where acc: "acc = (k, w, isize)" by (cases acc)
  obtain v where a: "a = Some v" and c: "c = 107 \<or> c = 119 \<or> c = 105"
    using Cons.prems by (auto simp: takes_argument_def r)
  have pre: "list_all takes_argument pre"
    using Cons.prems by simp
  from c show ?case
    using Cons.IH [OF pre] by (auto simp: r acc a)
qed

lemma parse_options_all:
  assumes "list_all takes_argument rs"
  shows "\<exists>k w isize. parse_options atoi rs acc = Inr (k, w, isize)"
proof -
  obtain acc' where "parse_options atoi (rs @ []) acc = parse_options atoi [] acc'"
    using parse_options_skip [OF assms, of atoi "[]" acc] by blast
  then show ?thesis
    by (cases acc') simp
qed

text \<open>
  Claim C10, amended.  The options are handled in the order in which \<^verbatim>\<open>getopt_long\<close>
  returns them.  When the first one that is not \<^verbatim>\<open>-k\<close>, \<^verbatim>\<open>-w\<close> or \<^verbatim>\<open>-i\<close> with
  an argument is \<^verbatim>\<open>-h\<close>, the process prints the usage and exits with status 0; when
  it is an unknown option, the process exits with status 1.  When all options are
  \<^verbatim>\<open>-k\<close>, \<^verbatim>\<open>-w\<close> or \<^verbatim>\<open>-i\<close> with an argument, the loop over the options ends
  normally; after that a missing sequences argument makes the process print the usage and
  exit with status 1, and otherwise a \<^verbatim>\<open>k\<close> above \<^verbatim>\<open>maximum_kmer_size()\<close> makes it
  print the allowed maximum on the error stream and exit with status 1.
\<close>

theorem pre_sweep_exits:
  "(list_all takes_argument pre \<longrightarrow>
      main fuel atoi C clk (pre @ (104, a) # rest) operands =
        Some \<lparr>ending = Exited 0, std_out = [Usage], std_err = []\<rparr>) \<and>
   (list_all takes_argument pre \<and>
    c \<noteq> 107 \<and> c \<noteq> 119 \<and> c \<noteq> 105 \<and> c \<noteq> 104 \<and> c \<noteq> - 1 \<longrightarrow>
      main fuel atoi C clk (pre @ (c, a) # rest) operands =
        Some \<lparr>ending = Exited 1, std_out = [], std_err = []\<rparr>) \<and>
   (list_all takes_argument rs \<longrightarrow>
      (\<exists>k w isize. parse_options atoi rs (15, 15, 10000) = Inr (k, w, isize))) \<and>
   (parse_options atoi rs (15, 15, 10000) = Inr (k, w, isize) \<longrightarrow>
      main fuel atoi C clk rs [] =
        Some \<lparr>ending = Exited 1, std_out = [Usage], std_err = []\<rparr>) \<and>
   (parse_options atoi rs (15, 15, 10000) = Inr (k, w, isize) \<and>
    maximum_kmer_size C < ucast k \<longrightarrow>
      main fuel atoi C clk rs (path # others) =
        Some \<lparr>ending = Exited 1, std_out = [],
               std_err = [KmerNotAllowed k (maximum_kmer_size C)]\<rparr>)"
proof -
  have hlp: "main fuel atoi C clk (pre @ (104, a) # rest) operands =
        Some \<lparr>ending = Exited 0, std_out = [Usage], std_err = []\<rparr>"
    if pre: "list_all takes_argument pre"
  proof -
    obtain acc' where "parse_options atoi (pre @ (104, a) # rest) (15, 15, 10000) =
        parse_options atoi ((104, a) # rest) acc'"
      using parse_options_skip [OF pre] by blast
    then show ?thesis
      by (cases acc') (simp add: main_def)
  qed
  have unknown: "main fuel atoi C clk (pre @ (c, a) # rest) operands =
        Some \<lparr>ending = Exited 1, std_out = [], std_err = []\<rparr>"
    if pre: "list_all takes_argument pre"
      and c: "c \<noteq> 107" "c \<noteq> 119" "c \<noteq> 105" "c \<noteq> 104" "c \<noteq> - 1"
  proof -
    obtain acc' where "parse_options atoi (pre @ (c, a) # rest) (15, 15, 10000) =
        parse_options atoi ((c, a) # rest) acc'"
      using parse_options_skip [OF pre] by blast
    then show ?thesis
      using c by (cases acc') (simp add: main_def)
  qed
  show ?thesis
    using hlp unknown parse_options_all [of rs atoi "(15, 15, 10000)"]
    by (simp add: main_def)
qed

text \<open>
  Claim C10 as stated fails: with \<^verbatim>\<open>-h\<close> and no sequences argument the process exits
  with status 0, not 1.
\<close>

theorem help_without_sequences_counterexample:
  "main 0 decimal_atoi (collection_index 7) ticking_clock [(104, None)] [] =
     Some \<lparr>ending = Exited 0, std_out = [Usage], std_err = []\<rparr>"
  by (simp add: main_def)

theorem pre_sweep_exits_witness:
  "list_all takes_argument [(107, Some ''21'')] \<and>
   main 0 decimal_atoi (collection_index 7) ticking_clock
     ([(107, Some ''21'')] @ (104, None) # [(63, None)]) [''reads.fa''] =
     Some \<lparr>ending = Exited 0, std_out = [Usage], std_err = []\<rparr> \<and>
   main 0 decimal_atoi (collection_index 7) ticking_clock
     ([(107, Some ''21'')] @ (63, None) # [(63, None)]) [''reads.fa''] =
     Some \<lparr>ending = Exited 1, std_out = [], std_err = []\<rparr> \<and>
   parse_options decimal_atoi [(107, Some ''99'')] (15, 15, 10000) = Inr (99, 15, 10000) \<and>
   main 0 decimal_atoi (collection_index 7) ticking_clock [(107, Some ''99'')] [] =
     Some \<lparr>ending = Exited 1, std_out = [Usage], std_err = []\<rparr> \<and>
   maximum_kmer_size (collection_index 7) < ucast (99 :: 32 word) \<and>
   main 0 decimal_atoi (collection_index 7) ticking_clock [(107, Some ''99'')] [''reads.fa''] =
     Some \<lparr>ending = Exited 1, std_out = [],
            std_err = [KmerNotAllowed 99 (maximum_kmer_size (collection_index 7))]\<rparr>"
proof -
  have a: "list_all takes_argument [(107, Some ''21'')]"
    by (simp add: takes_argument_def)
  have b: "parse_options decimal_atoi [(107, Some ''99'')] (15, 15, 10000) = Inr (99, 15, 10000)"
    by (simp add: decimal_atoi_def)
  have c: "maximum_kmer_size (collection_index 7) < ucast (99 :: 32 word)"
    by (simp add: collection_index_def)
  have d: "(63 :: 32 word) \<noteq> 107 \<and> (63 :: 32 word) \<noteq> 119 \<and> (63 :: 32 word) \<noteq> 105 \<and>
      (63 :: 32 word) \<noteq> 104 \<and> (63 :: 32 word) \<noteq> - 1"
    by simp
  note t = pre_sweep_exits [where pre = "[(107, Some ''21'')]" and a = None
      and rest = "[(63, None)]" and c = 63 and atoi = decimal_atoi
      and C = "collection_index 7" and clk = ticking_clock and fuel = 0
      and operands = "[''reads.fa'']" and rs = "[(107, Some ''99'')]"
      and k = 99 and w = 15 and isize = 10000 and path = "''reads.fa''" and others = "[]"]
  from t a have "main 0 decimal_atoi (collection_index 7) ticking_clock
     ([(107, Some ''21'')] @ (104, None) # [(63, None)]) [''reads.fa''] =
     Some \<lparr>ending = Exited 0, std_out = [Usage], std_err = []\<rparr>"
    by blast
  moreover from t a d have "main 0 decimal_atoi (collection_index 7) ticking_clock
     ([(107, Some ''21'')] @ (63, None) # [(63, None)]) [''reads.fa''] =
     Some \<lparr>ending = Exited 1, std_out = [], std_err = []\<rparr>"
    by blast
  moreover from t b have "main 0 decimal_atoi (collection_index 7) ticking_clock
     [(107, Some ''99'')] [] =
     Some \<lparr>ending = Exited 1, std_out = [Usage], std_err = []\<rparr>"
    by blast
  moreover from t b c have "main 0 decimal_atoi (collection_index 7) ticking_clock
     [(107, Some ''99'')] [''reads.fa''] =
     Some \<lparr>ending = Exited 1, std_out = [],
            std_err = [KmerNotAllowed 99 (maximum_kmer_size (collection_index 7))]\<rparr>"
    by blast
  ultimately show ?thesis
    using a b c by blast
qed

section \<open>The windows of a sweep\<close>

lemma window_next:
  "snd (window B p) + 1 = fst (window B (Suc p))"
  "fst (window B (Suc p)) + B = snd (window B (Suc p))"
  "fst (window B p) + B = snd (window B p)"
  by (simp_all add: window_def algebra_simps)

lemma visited_measured_stages:
  "visited (measured_stages C clk knd tgt rs index mp st) = visited st @ [(knd, rs)]"
  by (simp add: visited_def measured_stages_def Let_def)

lemma visited_advance_query: "visited (advance_query cfg st) = visited st"
  by (simp add: visited_def advance_query_def Let_def)

lemma inner_loop_windows:
  assumes chk: "\<And>j. i < j \<Longrightarrow> j \<le> m \<Longrightarrow>
      (number_of_reads C (create_index C (input_filepath cfg) (cfg_k cfg) (cfg_w cfg)
         [window (index_size cfg) i, window (index_size cfg) j]) < index_size cfg * 2) =
      (j = m)"
    and "i < p" and "p \<le> m" and "m - p < n"
  shows "\<exists>st'. inner_loop n C clk cfg (window (index_size cfg) i)
             (fst (window (index_size cfg) p)) (snd (window (index_size cfg) p)) st = Some st' \<and>
           visited st' = visited st @
             map (\<lambda>j. (INNER_CROSS, [window (index_size cfg) i, window (index_size cfg) j]))
               [p..<Suc m] \<and>
           query_start st' = query_start st \<and> query_end st' = query_end st"
  using assms(2-)
proof (induction n arbitrary: p st)
  case 0
  then show ?case by simp
next
  case (Suc n)
  let ?B = "index_size cfg"
  let ?rs = "[window ?B i, window ?B p]"
  let ?idx = "create_index C (input_filepath cfg) (cfg_k cfg) (cfg_w cfg) ?rs"
  let ?mp = "ucast (snd (window ?B i) - fst (window ?B i)) :: 32 word"
  let ?st1 = "measured_stages C clk INNER_CROSS (Some (window ?B p)) ?rs ?idx ?mp st"
  have step: "inner_loop (Suc n) C clk cfg (window ?B i) (fst (window ?B p)) (snd (window ?B p)) st =
      (if number_of_reads C ?idx < ?B * 2 then Some ?st1
       else inner_loop n C clk cfg (window ?B i) (fst (window ?B (Suc p)))
              (snd (window ?B (Suc p))) ?st1)"
    by (simp add: Let_def window_next)
  have v1: "visited ?st1 = visited st @ [(INNER_CROSS, ?rs)]"
    by (rule visited_measured_stages)
  show ?case
  proof (cases "p = m")
    case True
    then have "number_of_reads C ?idx < ?B * 2"
      using chk [of p] Suc.prems by simp
    then show ?thesis
      using step v1 True by simp
  next
    case False
    then have lt: "p < m" using Suc.prems by simp
    then have no: "\<not> number_of_reads C ?idx < ?B * 2"
      using chk [of p] Suc.prems by simp
    have "i < Suc p" "Suc p \<le> m" "m - Suc p < n"
      using Suc.prems lt by simp_all
    from Suc.IH [OF this, of ?st1] obtain st' where
      st': "inner_loop n C clk cfg (window ?B i) (fst (window ?B (Suc p)))
              (snd (window ?B (Suc p))) ?st1 = Some st'"
        "visited st' = visited ?st1 @
           map (\<lambda>j. (INNER_CROSS, [window ?B i, window ?B j])) [Suc p..<Suc m]"
        "query_start st' = query_start st" "query_end st' = query_end st"
      by auto
    have "[p..<Suc m] = p # [Suc p..<Suc m]"
      using lt by (simp add: upt_conv_Cons)
    then show ?thesis
      using step no st' v1 by simp
  qed
qed

lemma outer_loop_windows:
  assumes self: "\<And>p. p \<le> m \<Longrightarrow>
      (number_of_reads C (create_index C (input_filepath cfg) (cfg_k cfg) (cfg_w cfg)
         [window (index_size cfg) p]) < index_size cfg) = (p = m)"
    and cross: "\<And>i j. i < j \<Longrightarrow> j \<le> m \<Longrightarrow>
      (number_of_reads C (create_index C (input_filepath cfg) (cfg_k cfg) (cfg_w cfg)
         [window (index_size cfg) i, window (index_size cfg) j]) < index_size cfg * 2) =
      (j = m)"
    and "(query_start st, query_end st) = window (index_size cfg) i"
    and "i \<le> m" and "m - i < n"
  shows "\<exists>st'. outer_loop n C clk cfg st = Some st' \<and>
           visited st' = visited st @
             concat (map (window_passes (index_size cfg) m) [i..<m]) @
             [(OUTER_SELF, [window (index_size cfg) m])]"
  using assms(3-)
proof (induction n arbitrary: i st)
  case 0
  then show ?case by simp
next
  case (Suc n)
  let ?B = "index_size cfg"
  let ?qr = "(query_start st, query_end st)"
  let ?idx = "create_index C (input_filepath cfg) (cfg_k cfg) (cfg_w cfg) [window ?B i]"
  let ?st1 = "measured_stages C clk OUTER_SELF None [window ?B i] ?idx 0 st"
  have qr: "?qr = window ?B i" by (rule Suc.prems(1))
  then have qs: "query_start st = fst (window ?B i)" and qe: "query_end st = snd (window ?B i)"
    by (simp_all add: prod_eq_iff)
  have step: "outer_loop (Suc n) C clk cfg st =
      (if number_of_reads C ?idx < ?B then Some ?st1
       else (case inner_loop n C clk cfg (window ?B i) (fst (window ?B (Suc i)))
                    (snd (window ?B (Suc i))) ?st1 of
               None \<Rightarrow> None
             | Some st2 \<Rightarrow> outer_loop n C clk cfg (advance_query cfg st2)))"
    by (simp only: outer_loop.simps Let_def qs qe prod.collapse window_next)
  have v1: "visited ?st1 = visited st @ [(OUTER_SELF, [window ?B i])]"
    by (rule visited_measured_stages)
  show ?case
  proof (cases "i = m")
    case True
    then have "number_of_reads C ?idx < ?B"
      using self [of i] by simp
    then have "outer_loop (Suc n) C clk cfg st = Some ?st1"
      by (simp only: step if_True)
    then show ?thesis
      using v1 True by simp
  next
    case False
    then have lt: "i < m" using Suc.prems by simp
    then have no: "\<not> number_of_reads C ?idx < ?B"
      using self [of i] by simp
    have "i < Suc i" "Suc i \<le> m" "m - Suc i < n"
      using Suc.prems lt by simp_all
    from inner_loop_windows [OF cross this, where st = ?st1 and clk = clk] obtain st2 where
      st2: "inner_loop n C clk cfg (window ?B i) (fst (window ?B (Suc i)))
              (snd (window ?B (Suc i))) ?st1 = Some st2"
        "visited st2 = visited ?st1 @
           map (\<lambda>j. (INNER_CROSS, [window ?B i, window ?B j])) [Suc i..<Suc m]"
        "query_start st2 = query_start ?st1" "query_end st2 = query_end ?st1"
      by blast
    have "query_end st2 = snd (window ?B i)"
      using st2(4) qe by (simp add: measured_stages_def Let_def)
    then have q2: "(query_start (advance_query cfg st2), query_end (advance_query cfg st2)) =
        window ?B (Suc i)"
      by (simp add: advance_query_def Let_def window_next prod_eq_iff)
    have "Suc i \<le> m" "m - Suc i < n"
      using Suc.prems lt by simp_all
    from Suc.IH [OF q2 this] obtain st' where
      st': "outer_loop n C clk cfg (advance_query cfg st2) = Some st'"
        "visited st' = visited (advance_query cfg st2) @
           concat (map (window_passes ?B m) [Suc i..<m]) @ [(OUTER_SELF, [window ?B m])]"
      by blast
    have run: "outer_loop (Suc n) C clk cfg st = Some st'"
      by (simp only: step no if_False st2(1) option.case st'(1))
    have "visited st2 = visited st @ window_passes ?B m i"
      by (simp only: st2(2) v1 window_passes_def) simp
    then have "visited st' = visited st @ window_passes ?B m i @
        concat (map (window_passes ?B m) [Suc i..<m]) @ [(OUTER_SELF, [window ?B m])]"
      by (simp only: st'(2) visited_advance_query append_assoc)
    moreover have "[i..<m] = i # [Suc i..<m]"
      using lt by (simp add: upt_conv_Cons)
    ultimately have "visited st' = visited st @
        concat (map (window_passes ?B m) [i..<m]) @ [(OUTER_SELF, [window ?B m])]"
      by simp
    with run show ?thesis by blast
  qed
qed

lemma sweep_windows:
  assumes self: "\<And>p. p \<le> m \<Longrightarrow>
      (number_of_reads C (create_index C (input_filepath cfg) (cfg_k cfg) (cfg_w cfg)
         [window (index_size cfg) p]) < index_size cfg) = (p = m)"
    and cross: "\<And>i j. i < j \<Longrightarrow> j \<le> m \<Longrightarrow>
      (number_of_reads C (create_index C (input_filepath cfg) (cfg_k cfg) (cfg_w cfg)
         [window (index_size cfg) i, window (index_size cfg) j]) < index_size cfg * 2) =
      (j = m)"
    and "m < fuel"
  shows "\<exists>st. sweep fuel C clk cfg = Some st \<and> visited st = expected_visits (index_size cfg) m"
proof -
  have q: "(query_start (initial_state cfg), query_end (initial_state cfg)) =
      window (index_size cfg) 0"
    by (simp add: initial_state_def window_def)
  have "0 \<le> m" "m - 0 < fuel"
    using assms(3) by simp_all
  from outer_loop_windows [OF self cross q this] obtain st0 where
    "outer_loop fuel C clk cfg (initial_state cfg) = Some st0"
    "visited st0 = visited (initial_state cfg) @
       concat (map (window_passes (index_size cfg) m) [0..<m]) @
       [(OUTER_SELF, [window (index_size cfg) m])]"
    by blast
  then show ?thesis
    by (simp add: sweep_def expected_visits_def visited_def report_def initial_state_def)
qed

section \<open>The sweep over a collection of reads\<close>

lemma bound_64: "(2 :: nat) ^ 63 + 2 ^ 63 = 2 ^ 64"
  by simp

lemma unat_below_64: "unat (B :: 64 word) < 2 ^ 64"
  using unsigned_less [of B, where 'a = nat] by simp

lemma window_of_nat:
  "window B p = (of_nat (p * (unat B + 1)), of_nat (p * (unat B + 1) + unat B))"
  by (simp add: window_def algebra_simps)

lemma window_unat:
  assumes "p * (unat B + 1) + unat B < 2 ^ 64"
  shows "unat (fst (window B p)) = p * (unat B + 1)"
    and "unat (snd (window B p)) = p * (unat B + 1) + unat B"
proof -
  have "p * (unat B + 1) < 2 ^ LENGTH(64)" "p * (unat B + 1) + unat B < 2 ^ LENGTH(64)"
    using assms by simp_all
  then show "unat (fst (window B p)) = p * (unat B + 1)"
    and "unat (snd (window B p)) = p * (unat B + 1) + unat B"
    by (simp_all only: window_of_nat fst_conv snd_conv of_nat_inverse [OF refl])
qed

lemma full_windows_le:
  assumes "p < (N + 1) div (b + 1)"
  shows "p * (b + 1) + b \<le> (N :: nat)"
proof -
  have "Suc p * (b + 1) \<le> ((N + 1) div (b + 1)) * (b + 1)"
    using assms by (intro mult_le_mono1) simp
  also have "\<dots> \<le> N + 1"
    by (rule div_times_less_eq_dividend)
  finally show ?thesis by simp
qed

lemma last_window_gt:
  "(N :: nat) < ((N + 1) div (b + 1)) * (b + 1) + b"
proof -
  have "N + 1 < (b + 1) + ((N + 1) div (b + 1)) * (b + 1)"
    by (rule dividend_less_div_times) simp
  then show ?thesis by simp
qed

lemma last_window_le: "((N + 1) div (b + 1)) * (b + 1) \<le> (N :: nat) + 1"
  by (rule div_times_less_eq_dividend)

lemma windows_bound:
  assumes "N < 2 ^ 63" and "p \<le> (N + 1) div (unat B + 1)"
  shows "p * (unat B + 1) + unat (B :: 64 word) < 2 ^ 64"
proof (cases "p = 0")
  case True
  then show ?thesis using unat_below_64 [of B] by simp
next
  case False
  have "p * (unat B + 1) \<le> ((N + 1) div (unat B + 1)) * (unat B + 1)"
    using assms(2) by (rule mult_le_mono1)
  then have le: "p * (unat B + 1) \<le> N + 1"
    using last_window_le [of N "unat B"] by (rule order_trans)
  have "1 * (unat B + 1) \<le> p * (unat B + 1)"
    using False by (intro mult_le_mono1) simp
  then have "unat B \<le> N"
    using le by simp
  then have "p * (unat B + 1) + unat B \<le> N + 1 + N"
    using le by simp
  also have "\<dots> < 2 ^ 63 + 2 ^ 63"
    using assms(1) by simp
  finally show ?thesis by (simp only: bound_64)
qed


lemma reads_in_range_le: "reads_in_range N r \<le> N"
  by (simp add: reads_in_range_def)

lemma full_window_reads:
  assumes "N < 2 ^ 63" and "p < (N + 1) div (unat B + 1)"
  shows "reads_in_range N (window B p) = unat B"
proof -
  have "p * (unat B + 1) + unat B < 2 ^ 64"
    using assms(1) less_imp_le [OF assms(2)] by (rule windows_bound)
  note u = window_unat [OF this]
  have "p * (unat B + 1) + unat B \<le> N"
    using assms(2) by (rule full_windows_le)
  then show ?thesis
    by (simp add: reads_in_range_def u)
qed

lemma last_window_reads:
  assumes "N < 2 ^ 63" and "0 < unat B"
  shows "reads_in_range N (window B ((N + 1) div (unat B + 1))) < unat B"
proof -
  define m where "m = (N + 1) div (unat B + 1)"
  have "m * (unat B + 1) + unat B < 2 ^ 64"
    unfolding m_def using assms(1) order.refl by (rule windows_bound)
  note u = window_unat [OF this]
  define s where "s = m * (unat B + 1)"
  have "N < s + unat B"
    unfolding s_def m_def by (rule last_window_gt)
  then have "min (s + unat B) N - min s N < unat B"
    using assms(2) by arith
  then have "min (m * (unat B + 1) + unat B) N - min (m * (unat B + 1)) N < unat B"
    by (simp only: s_def)
  then show ?thesis
    by (simp only: reads_in_range_def u m_def [symmetric])
qed

lemma unat_reads:
  assumes "n < 2 ^ 64"
  shows "unat (of_nat n :: 64 word) = n"
  using assms by (intro of_nat_inverse [OF refl]) simp

lemma self_check:
  assumes "indexes_collection C N" and "N < 2 ^ 63" and "0 < unat B"
    and "p \<le> (N + 1) div (unat B + 1)"
  shows "(number_of_reads C (create_index C path k w [window B p]) < B) =
         (p = (N + 1) div (unat B + 1))"
proof -
  let ?r = "reads_in_range N (window B p)"
  have "?r \<le> N" by (rule reads_in_range_le)
  also note assms(2)
  also have "(2 :: nat) ^ 63 < 2 ^ 64"
    by simp
  finally have u: "unat (of_nat ?r :: 64 word) = ?r"
    by (rule unat_reads)
  have "number_of_reads C (create_index C path k w [window B p]) = of_nat ?r"
    using assms(1) by (simp add: indexes_collection_def reads_in_ranges_def)
  then have "(number_of_reads C (create_index C path k w [window B p]) < B) = (?r < unat B)"
    by (simp only: word_less_nat_alt u)
  also have "\<dots> = (p = (N + 1) div (unat B + 1))"
  proof (cases "p = (N + 1) div (unat B + 1)")
    case True
    then show ?thesis using last_window_reads [OF assms(2,3)] by simp
  next
    case False
    then have "p < (N + 1) div (unat B + 1)" using assms(4) by simp
    from full_window_reads [OF assms(2) this] False show ?thesis by simp
  qed
  finally show ?thesis .
qed

lemma cross_check:
  assumes "indexes_collection C N" and "N < 2 ^ 63" and "0 < unat B"
    and "i < j" and "j \<le> (N + 1) div (unat B + 1)"
  shows "(number_of_reads C (create_index C path k w [window B i, window B j]) < B * 2) =
         (j = (N + 1) div (unat B + 1))"
proof -
  let ?m = "(N + 1) div (unat B + 1)"
  let ?r = "reads_in_range N (window B j)"
  have i: "i < ?m" using assms(4,5) by simp
  then have ri: "reads_in_range N (window B i) = unat B"
    by (rule full_window_reads [OF assms(2)])
  have "i * (unat B + 1) + unat B \<le> N"
    using i by (rule full_windows_le)
  then have bN: "unat B \<le> N" by simp
  have N2: "N + N < 2 ^ 64"
    using assms(2) by (simp only: bound_64 [symmetric])
  have "unat B * unat (2 :: 64 word) < 2 ^ LENGTH(64)"
    using bN N2 by simp
  then have "unat (B * 2) = unat B * unat (2 :: 64 word)"
    by (simp only: unat_mult_lem)
  then have B2: "unat (B * 2) = unat B + unat B"
    by simp
  have "?r \<le> N" by (rule reads_in_range_le)
  then have "unat B + ?r < 2 ^ 64"
    using bN N2 by simp
  then have u: "unat (of_nat (unat B + ?r) :: 64 word) = unat B + ?r"
    by (rule unat_reads)
  have "number_of_reads C (create_index C path k w [window B i, window B j]) =
      of_nat (unat B + ?r)"
    using assms(1) by (simp add: indexes_collection_def reads_in_ranges_def ri)
  then have "(number_of_reads C (create_index C path k w [window B i, window B j]) < B * 2) =
      (unat B + ?r < unat B + unat B)"
    by (simp only: word_less_nat_alt u B2)
  also have "\<dots> = (?r < unat B)"
    by simp
  also have "\<dots> = (j = ?m)"
  proof (cases "j = ?m")
    case True
    then show ?thesis using last_window_reads [OF assms(2,3)] by simp
  next
    case False
    then have "j < ?m" using assms(5) by simp
    from full_window_reads [OF assms(2) this] False show ?thesis by simp
  qed
  finally show ?thesis .
qed

lemma sweep_collection:
  assumes "indexes_collection C N" and "N < 2 ^ 63" and "0 < unat (index_size cfg)"
    and "(N + 1) div (unat (index_size cfg) + 1) < fuel"
  shows "\<exists>st. sweep fuel C clk cfg = Some st \<and>
           visited st = expected_visits (index_size cfg) ((N + 1) div (unat (index_size cfg) + 1))"
  using assms(4)
  by (intro sweep_windows self_check [OF assms(1-3)] cross_check [OF assms(1-3)])

lemma sweep_zero_batch:
  assumes "index_size cfg = 0"
  shows "sweep fuel C clk cfg = None"
proof -
  have inner: "inner_loop n C clk cfg qr ts te st = None" for n qr ts te st
    by (induction n arbitrary: ts te st) (simp_all add: Let_def assms)
  have "outer_loop n C clk cfg st = None" for n st
    by (cases n) (simp_all add: Let_def assms inner)
  then show ?thesis by (simp add: sweep_def)
qed



lemma filter_window_passes:
  "filter (\<lambda>v. fst v = OUTER_SELF) (window_passes B m i) = [(OUTER_SELF, [window B i])]"
  by (simp add: window_passes_def filter_map comp_def)

lemma concat_singletons: "concat (map (\<lambda>i. [f i]) xs) = map f xs"
  by (induction xs) simp_all

lemma outer_self_expected:
  "filter (\<lambda>v. fst v = OUTER_SELF) (expected_visits B m) =
     map (\<lambda>p. (OUTER_SELF, [window B p])) [0..<Suc m]"
  by (simp add: expected_visits_def filter_concat comp_def filter_window_passes
      concat_singletons)

lemma outer_self_ranges:
  "map step_ranges (outer_self_steps st) =
     map snd (filter (\<lambda>v. fst v = OUTER_SELF) (visited st))"
  by (simp add: outer_self_steps_def visited_def filter_map comp_def)

lemma expected_members:
  assumes "v \<in> set (expected_visits B m)"
  shows "(\<exists>p\<le>m. v = (OUTER_SELF, [window B p])) \<or>
         (\<exists>i j. i < j \<and> j \<le> m \<and> v = (INNER_CROSS, [window B i, window B j]))"
proof -
  from assms consider "v = (OUTER_SELF, [window B m])"
    | i where "i < m" "v \<in> set (window_passes B m i)"
    by (auto simp: expected_visits_def)
  then show ?thesis
  proof cases
    case 1
    then show ?thesis by (intro disjI1 exI [of _ m]) simp
  next
    case 2
    from 2(2) have "v = (OUTER_SELF, [window B i]) \<or>
        v \<in> (\<lambda>j. (INNER_CROSS, [window B i, window B j])) ` {Suc i..<Suc m}"
      by (simp add: window_passes_def del: upt_Suc)
    then show ?thesis
    proof
      assume "v = (OUTER_SELF, [window B i])"
      then show ?thesis using 2(1) by (intro disjI1 exI [of _ i]) simp
    next
      assume "v \<in> (\<lambda>j. (INNER_CROSS, [window B i, window B j])) ` {Suc i..<Suc m}"
      then obtain j where "j \<in> {Suc i..<Suc m}" "v = (INNER_CROSS, [window B i, window B j])"
        by (rule imageE)
      then show ?thesis by (intro disjI2 exI [of _ i] exI [of _ j]) simp
    qed
  qed
qed

lemma windows_count:
  assumes "0 < (b :: nat)"
  shows "(N + 1) div (b + 1) \<le> N div b"
proof (cases "(N + 1) div (b + 1) = 0")
  case True
  then show ?thesis by simp
next
  case False
  define m where "m = (N + 1) div (b + 1)"
  have "m * (b + 1) \<le> N + 1"
    unfolding m_def by (rule div_times_less_eq_dividend)
  then have "m * b + m \<le> N + 1"
    by (simp add: algebra_simps)
  moreover have "1 \<le> m"
    using False by (simp add: m_def)
  ultimately have "m * b \<le> N"
    by simp
  then have "m \<le> N div b"
    using assms by (simp add: less_eq_div_iff_mult_less_eq)
  then show ?thesis by (simp add: m_def)
qed



lemma sweep_collection_any_fuel:
  assumes "indexes_collection C N" and "N < 2 ^ 63" and "sweep fuel C clk cfg = Some st"
  shows "0 < unat (index_size cfg) \<and>
         visited st = expected_visits (index_size cfg) ((N + 1) div (unat (index_size cfg) + 1))"
proof -
  let ?m = "(N + 1) div (unat (index_size cfg) + 1)"
  have "index_size cfg \<noteq> 0"
    using assms(3) sweep_zero_batch [of cfg fuel C clk] by auto
  then have pos: "0 < unat (index_size cfg)"
    by (simp add: unat_gt_0)
  have "?m < Suc (max fuel ?m)" by simp
  from sweep_collection [OF assms(1,2) pos this] obtain st' where
    st': "sweep (Suc (max fuel ?m)) C clk cfg = Some st'"
      "visited st' = expected_visits (index_size cfg) ?m"
    by blast
  have "sweep (Suc (max fuel ?m)) C clk cfg = Some st"
    using assms(3) by (rule sweep_fuel) simp
  then have "st' = st" using st'(1) by simp
  then show ?thesis using pos st'(2) by simp
qed

lemma outer_self_windows:
  assumes "indexes_collection C N" and "N < 2 ^ 63" and "sweep fuel C clk cfg = Some st"
  shows "map step_query (outer_self_steps st) =
         map (window (index_size cfg)) [0..<Suc ((N + 1) div (unat (index_size cfg) + 1))]"
proof -
  let ?B = "index_size cfg"
  let ?m = "(N + 1) div (unat ?B + 1)"
  have v: "visited st = expected_visits ?B ?m"
    using sweep_collection_any_fuel [OF assms] by simp
  have r: "map step_ranges (outer_self_steps st) = map (\<lambda>p. [window ?B p]) [0..<Suc ?m]"
    by (simp only: outer_self_ranges v outer_self_expected) (simp add: comp_def)
  have "step_query s = hd (step_ranges s)" if "s \<in> set (outer_self_steps st)" for s
  proof -
    have "s \<in> set (trace st)" "step_kind s = OUTER_SELF"
      using that by (simp_all add: outer_self_steps_def)
    then show ?thesis
      using sweep_step [OF assms(3), of s] by (simp add: step_ok_def)
  qed
  then have "map step_query (outer_self_steps st) = map hd (map step_ranges (outer_self_steps st))"
    by simp
  also have "\<dots> = map (window ?B) [0..<Suc ?m]"
    by (simp only: r) (simp add: comp_def)
  finally show ?thesis .
qed

lemma collection_index_indexes: "indexes_collection (collection_index N) N"
  by (simp add: indexes_collection_def collection_index_def)

lemma example_run_windows:
  obtains st where
    "sweep 3 (collection_index 7) ticking_clock (batch_config 2) = Some st"
    "map step_query (outer_self_steps st) = [(0, 2), (3, 5), (6, 8)]"
  by (simp add: example_run outer_self_steps_def)

section \<open>The claims about the sweep over a collection\<close>

text \<open>
  Claim C1, amended.  Take a collection of \<open>N\<close> reads, \<open>N\<close> below \<open>2 ^ 63\<close>, and
  an index that counts the reads of its half-open ranges.  With batch size \<open>0\<close> the run
  never ends.  With a batch size \<open>B\<close> of at least \<open>1\<close> the run ends, within
  \<open>N div B + 1\<close> rounds of the outer loop, and makes at least one and at most
  \<open>N div B + 1\<close> passes of the outer loop.  The first of their query windows is
  \<open>(0, B)\<close>; each is indexed alone and ends \<open>B\<close> after its start; each starts at or
  after the end of the one before; every one but the last holds exactly \<open>B\<close> reads of
  the collection, and the last holds fewer than \<open>B\<close>.
\<close>

theorem query_windows:
  assumes "indexes_collection C N" and "N < 2 ^ 63"
  shows "(index_size cfg = 0 \<longrightarrow> sweep fuel C clk cfg = None) \<and>
    (index_size cfg \<noteq> 0 \<longrightarrow>
      (\<exists>st. (\<forall>n>N div unat (index_size cfg). sweep n C clk cfg = Some st) \<and>
         1 \<le> length (outer_self_steps st) \<and>
         length (outer_self_steps st) \<le> N div unat (index_size cfg) + 1 \<and>
         step_query (outer_self_steps st ! 0) = (0, index_size cfg) \<and>
         (\<forall>p<length (outer_self_steps st).
            step_ranges (outer_self_steps st ! p) = [step_query (outer_self_steps st ! p)] \<and>
            unat (snd (step_query (outer_self_steps st ! p))) =
              unat (fst (step_query (outer_self_steps st ! p))) + unat (index_size cfg)) \<and>
         (\<forall>p. Suc p < length (outer_self_steps st) \<longrightarrow>
            unat (snd (step_query (outer_self_steps st ! p))) \<le>
              unat (fst (step_query (outer_self_steps st ! Suc p))) \<and>
            reads_in_range N (step_query (outer_self_steps st ! p)) = unat (index_size cfg)) \<and>
         reads_in_range N (step_query (last (outer_self_steps st))) < unat (index_size cfg)))"
proof (intro conjI impI)
  assume "index_size cfg = 0"
  then show "sweep fuel C clk cfg = None"
    by (rule sweep_zero_batch)
next
  assume "index_size cfg \<noteq> 0"
  let ?B = "index_size cfg"
  let ?b = "unat ?B"
  define m where "m = (N + 1) div (?b + 1)"
  have pos: "0 < ?b"
    using \<open>?B \<noteq> 0\<close> by (simp add: unat_gt_0)
  have mle: "m \<le> N div ?b"
    unfolding m_def using pos by (rule windows_count)
  have "m < Suc m" by simp
  then have "\<exists>st. sweep (Suc m) C clk cfg = Some st \<and> visited st = expected_visits ?B m"
    unfolding m_def by (rule sweep_collection [OF assms pos])
  then obtain st where run: "sweep (Suc m) C clk cfg = Some st"
    by blast
  let ?os = "outer_self_steps st"
  have all: "sweep n C clk cfg = Some st" if "N div ?b < n" for n
    using run by (rule sweep_fuel) (use mle that in simp)
  have ws: "map step_query ?os = map (window ?B) [0..<Suc m]"
    unfolding m_def using assms run by (rule outer_self_windows)
  have "length (map step_query ?os) = length (map (window ?B) [0..<Suc m])"
    by (simp only: ws)
  then have len: "length ?os = Suc m"
    by simp
  have nth: "step_query (?os ! p) = window ?B p" if "p \<le> m" for p
  proof -
    have "map step_query ?os ! p = map (window ?B) [0..<Suc m] ! p"
      by (simp only: ws)
    then show ?thesis
      using that len by (simp del: upt_Suc)
  qed
  have bound: "p * (?b + 1) + ?b < 2 ^ 64" if "p \<le> m" for p
    using assms(2) that unfolding m_def by (rule windows_bound)
  have u: "unat (fst (window ?B p)) = p * (?b + 1)"
    "unat (snd (window ?B p)) = p * (?b + 1) + ?b" if "p \<le> m" for p
    using window_unat [OF bound [OF that]] by simp_all
  have rng: "step_ranges (?os ! p) = [step_query (?os ! p)]" if "p \<le> m" for p
  proof -
    have "?os ! p \<in> set ?os"
      using that len by simp
    then have "?os ! p \<in> set (trace st)" "step_kind (?os ! p) = OUTER_SELF"
      by (simp_all add: outer_self_steps_def)
    then show ?thesis
      using sweep_step [OF run, of "?os ! p"] by (simp add: step_ok_def)
  qed
  have first: "step_query (?os ! 0) = (0, ?B)"
    using nth [of 0] by (simp add: window_def)
  have width: "step_ranges (?os ! p) = [step_query (?os ! p)] \<and>
      unat (snd (step_query (?os ! p))) = unat (fst (step_query (?os ! p))) + ?b"
    if "p < length ?os" for p
  proof -
    have p: "p \<le> m" using that len by simp
    show ?thesis
      unfolding nth [OF p] u [OF p] using rng [OF p] nth [OF p] by simp
  qed
  have "next": "unat (snd (step_query (?os ! p))) \<le> unat (fst (step_query (?os ! Suc p))) \<and>
      reads_in_range N (step_query (?os ! p)) = ?b"
    if "Suc p < length ?os" for p
  proof -
    have p: "p < m" "p \<le> m" "Suc p \<le> m" using that len by simp_all
    have "reads_in_range N (window ?B p) = ?b"
      using assms(2) p(1) unfolding m_def by (rule full_window_reads)
    then show ?thesis
      unfolding nth [OF p(2)] nth [OF p(3)] u [OF p(2)] u [OF p(3)] by simp
  qed
  have "?os \<noteq> []"
    using len by auto
  then have "last ?os = ?os ! (length ?os - 1)"
    by (rule last_conv_nth)
  then have "last ?os = ?os ! m"
    by (simp only: len diff_Suc_1)
  moreover have "reads_in_range N (window ?B m) < ?b"
    unfolding m_def using assms(2) pos by (rule last_window_reads)
  ultimately have short: "reads_in_range N (step_query (last ?os)) < ?b"
    by (simp add: nth)
  show "\<exists>st. (\<forall>n>N div unat (index_size cfg). sweep n C clk cfg = Some st) \<and>
         1 \<le> length (outer_self_steps st) \<and>
         length (outer_self_steps st) \<le> N div unat (index_size cfg) + 1 \<and>
         step_query (outer_self_steps st ! 0) = (0, index_size cfg) \<and>
         (\<forall>p<length (outer_self_steps st).
            step_ranges (outer_self_steps st ! p) = [step_query (outer_self_steps st ! p)] \<and>
            unat (snd (step_query (outer_self_steps st ! p))) =
              unat (fst (step_query (outer_self_steps st ! p))) + unat (index_size cfg)) \<and>
         (\<forall>p. Suc p < length (outer_self_steps st) \<longrightarrow>
            unat (snd (step_query (outer_self_steps st ! p))) \<le>
              unat (fst (step_query (outer_self_steps st ! Suc p))) \<and>
            reads_in_range N (step_query (outer_self_steps st ! p)) = unat (index_size cfg)) \<and>
         reads_in_range N (step_query (last (outer_self_steps st))) < unat (index_size cfg)"
    using all len mle first width "next" short
    by (intro exI [of _ st]) simp
qed


theorem query_windows_witness:
  "indexes_collection (collection_index 7) 7 \<and> (7 :: nat) < 2 ^ 63 \<and>
   index_size (batch_config 2) \<noteq> 0 \<and> index_size (batch_config 0) = 0 \<and>
   sweep 4 (collection_index 7) ticking_clock (batch_config 0) = None \<and>
   (\<exists>st. sweep 4 (collection_index 7) ticking_clock (batch_config 2) = Some st \<and>
      length (outer_self_steps st) \<le> 7 div unat (index_size (batch_config 2)) + 1 \<and>
      map step_query (outer_self_steps st) = [(0, 2), (3, 5), (6, 8)])"
proof -
  have c: "indexes_collection (collection_index 7) 7"
    by (rule collection_index_indexes)
  have n: "(7 :: nat) < 2 ^ 63"
    by simp
  have b2: "index_size (batch_config 2) \<noteq> 0" and b0: "index_size (batch_config 0) = 0"
    by (simp_all add: batch_config_def)
  have d: "7 div unat (index_size (batch_config 2)) < (4 :: nat)"
    by (simp add: batch_config_def)
  have none: "sweep 4 (collection_index 7) ticking_clock (batch_config 0) = None"
    using query_windows [OF c n, of "batch_config 0" 4 ticking_clock] b0 by blast
  obtain st where st: "\<forall>n>7 div unat (index_size (batch_config 2)).
      sweep n (collection_index 7) ticking_clock (batch_config 2) = Some st"
    "length (outer_self_steps st) \<le> 7 div unat (index_size (batch_config 2)) + 1"
    using query_windows [OF c n, of "batch_config 2" 4 ticking_clock] b2 by blast
  have run: "sweep 4 (collection_index 7) ticking_clock (batch_config 2) = Some st"
    using st(1) d by blast
  obtain st' where st': "sweep 3 (collection_index 7) ticking_clock (batch_config 2) = Some st'"
    "map step_query (outer_self_steps st') = [(0, 2), (3, 5), (6, 8)]"
    by (rule example_run_windows)
  have "sweep 4 (collection_index 7) ticking_clock (batch_config 2) = Some st'"
    using st'(1) by (rule sweep_fuel) simp
  then have "st' = st" using run by simp
  then show ?thesis
    using c n b2 b0 none run st(2) st'(2) by (simp del: One_nat_def)
qed

text \<open>
  Claim C1 as stated fails.  Two reads with batch size \<open>2\<close> take two passes of the outer
  loop, not \<open>\<lceil>2 / 2\<rceil> = 1\<close>, and the second window lies outside the collection.
  Three reads with batch size \<open>1\<close> are swept with the windows \<open>(0, 1)\<close>, \<open>(2, 3)\<close>
  and \<open>(4, 5)\<close>: the read with number \<open>1\<close> is in none of them.
\<close>

theorem query_windows_counterexample:
  "map_option visited (sweep 3 (collection_index 2) ticking_clock (batch_config 2)) =
     Some [(OUTER_SELF, [(0, 2)]), (INNER_CROSS, [(0, 2), (3, 5)]), (OUTER_SELF, [(3, 5)])] \<and>
   (2 + 2 - 1) div 2 = (1 :: nat) \<and>
   map_option visited (sweep 3 (collection_index 3) ticking_clock (batch_config 1)) =
     Some [(OUTER_SELF, [(0, 1)]), (INNER_CROSS, [(0, 1), (2, 3)]),
           (INNER_CROSS, [(0, 1), (4, 5)]), (OUTER_SELF, [(2, 3)]),
           (INNER_CROSS, [(2, 3), (4, 5)]), (OUTER_SELF, [(4, 5)])]"
  by code_simp

text \<open>
  Claim C5.  At every pass of a run over such a collection, \<^verbatim>\<open>query_end\<close> is
  \<^verbatim>\<open>query_start\<close> plus the batch size and, in the inner loop, \<^verbatim>\<open>target_end\<close> is
  \<^verbatim>\<open>target_start\<close> plus the batch size, as numbers: no sum has wrapped around.  The
  target window of a pass of the inner loop starts after the query window starts, and even
  after it ends.
\<close>

theorem windows_invariant:
  assumes "indexes_collection C N" and "N < 2 ^ 63"
    and "sweep fuel C clk cfg = Some st" and "s \<in> set (trace st)"
  shows "unat (snd (step_query s)) = unat (fst (step_query s)) + unat (index_size cfg) \<and>
    (\<forall>t. step_target s = Some t \<longrightarrow>
       unat (snd t) = unat (fst t) + unat (index_size cfg) \<and>
       unat (fst (step_query s)) < unat (fst t) \<and>
       unat (snd (step_query s)) < unat (fst t))"
proof -
  let ?B = "index_size cfg"
  let ?m = "(N + 1) div (unat ?B + 1)"
  have v: "visited st = expected_visits ?B ?m"
    using sweep_collection_any_fuel [OF assms(1-3)] by simp
  have ok: "step_ok cfg s"
    using assms(3,4) by (rule sweep_step)
  have "(step_kind s, step_ranges s) \<in> set (visited st)"
    using assms(4) by (auto simp: visited_def)
  then have mem: "(step_kind s, step_ranges s) \<in> set (expected_visits ?B ?m)"
    by (simp only: v)
  have u: "unat (fst (window ?B p)) = p * (unat ?B + 1)"
    "unat (snd (window ?B p)) = p * (unat ?B + 1) + unat ?B" if "p \<le> ?m" for p
    using window_unat [OF windows_bound [OF assms(2) that]] by simp_all
  from expected_members [OF mem] show ?thesis
  proof (elim disjE exE conjE)
    fix p
    assume p: "p \<le> ?m" and "(step_kind s, step_ranges s) = (OUTER_SELF, [window ?B p])"
    then have "step_query s = window ?B p" "step_target s = None"
      using ok by (simp_all add: step_ok_def)
    then show ?thesis
      using u [OF p] by simp
  next
    fix i j
    assume ij: "i < j" "j \<le> ?m"
      and "(step_kind s, step_ranges s) = (INNER_CROSS, [window ?B i, window ?B j])"
    then have q: "step_query s = window ?B i" and t: "step_target s = Some (window ?B j)"
      using ok by (auto simp: step_ok_def split: option.splits)
    have i: "i \<le> ?m" using ij by simp
    have "Suc i * (unat ?B + 1) \<le> j * (unat ?B + 1)"
      using ij(1) by (intro mult_le_mono1) simp
    then have "i * (unat ?B + 1) + unat ?B < j * (unat ?B + 1)"
      by simp
    then show ?thesis
      using u [OF i] u [OF ij(2)] by (simp add: q t)
  qed
qed


theorem windows_invariant_witness:
  "indexes_collection (collection_index 7) 7 \<and> (7 :: nat) < 2 ^ 63 \<and>
   (\<exists>st s. sweep 3 (collection_index 7) ticking_clock (batch_config 2) = Some st \<and>
      s \<in> set (trace st) \<and> step_kind s = INNER_CROSS \<and>
      (\<exists>t. step_target s = Some t \<and> unat (snd (step_query s)) < unat (fst t) \<and>
         unat (snd t) = unat (fst t) + unat (index_size (batch_config 2))))"
proof -
  have c: "indexes_collection (collection_index 7) 7"
    by (rule collection_index_indexes)
  have n: "(7 :: nat) < 2 ^ 63"
    by simp
  obtain st where st: "sweep 3 (collection_index 7) ticking_clock (batch_config 2) = Some st"
    "map step_kind (trace st) =
       [OUTER_SELF, INNER_CROSS, INNER_CROSS, OUTER_SELF, INNER_CROSS, OUTER_SELF]"
    "map step_target (trace st) = [None, Some (3, 5), Some (6, 8), None, Some (6, 8), None]"
    by (rule example_run_facts)
  have "length (map step_kind (trace st)) = 6"
    by (simp only: st(2)) simp
  then have len: "2 < length (trace st)"
    by simp
  have "map step_kind (trace st) ! 2 = INNER_CROSS"
    by (simp only: st(2)) simp
  then have k: "step_kind (trace st ! 2) = INNER_CROSS"
    using len by simp
  have "map step_target (trace st) ! 2 = Some (6, 8)"
    by (simp only: st(3)) simp
  then have t: "step_target (trace st ! 2) = Some (6, 8)"
    using len by simp
  have mem: "trace st ! 2 \<in> set (trace st)"
    using len by simp
  from windows_invariant [OF c n st(1) mem] t
  have "unat (snd (6 :: 64 word, 8 :: 64 word)) =
      unat (fst (6 :: 64 word, 8 :: 64 word)) + unat (index_size (batch_config 2)) \<and>
    unat (snd (step_query (trace st ! 2))) < unat (fst (6 :: 64 word, 8 :: 64 word))"
    by blast
  then show ?thesis
    using c n st(1) mem k t
    by (intro conjI exI [of _ st] exI [of _ "trace st ! 2"] exI [of _ "(6, 8)"]) simp_all
qed






end
